theory Spec2Isabelle
  imports Main "HOL-Library.Word"
begin

section \<open>Data model\<close>

text \<open>
  The program (\<^verbatim>\<open>KnightTourText.cpp\<close>) works on C++ \<^verbatim>\<open>int\<close> values and on
  \<^verbatim>\<open>std::vector\<close>s of them. An \<^verbatim>\<open>int\<close> is a 32-bit two's complement word: \<open>+\<close>,
  \<open>-\<close> and \<open>*\<close> wrap around, \<open>sint\<close> reads the signed value, and the comparisons of
  the source are the signed ones (\<open>\<le>s\<close>, \<open><s\<close>). Signed overflow, which C++ leaves
  undefined, is the wrap-around of the machine here; on the boards the program reads
  (3 to 10 rows and columns) every number stays far from the ends of the range. A
  vector is a list. The board is a
  \<^verbatim>\<open>vector<vector<int>>\<close> whose cells hold 0 (not visited), 1 (the knight is here) or
  2 (visited); a position is a \<^verbatim>\<open>pair<int,int>\<close>.
\<close>

type_synonym cint = "32 word"
type_synonym board = "cint list list"
type_synonym square = "cint \<times> cint"

text \<open>
  The source has no error handling of its own. What can go wrong is what C++ leaves
  undefined or throws: \<^verbatim>\<open>operator[]\<close> outside a vector (\<open>OutOfRange\<close>) and a vector
  constructed with a negative size (\<open>BadAlloc\<close>). Both are results of the model, so that
  every theorem about a returned value also says that no such access happened.
\<close>

datatype error = OutOfRange | BadAlloc

text \<open>
  \<^verbatim>\<open>vec[i]\<close> with an \<^verbatim>\<open>int\<close> index: the index is converted to \<^verbatim>\<open>size_t\<close>, so a
  negative one is far beyond the end of any vector.
\<close>

definition vec_at :: "'a list \<Rightarrow> cint \<Rightarrow> error + 'a" where
  "vec_at xs i =
     (if 0 \<le>s i \<and> nat (sint i) < length xs then Inr (xs ! nat (sint i)) else Inl OutOfRange)"

text \<open>\<^verbatim>\<open>Board[x][y]\<close> as a read.\<close>

definition board_at :: "board \<Rightarrow> cint \<Rightarrow> cint \<Rightarrow> error + cint" where
  "board_at Board x y = (case vec_at Board x of Inl e \<Rightarrow> Inl e | Inr row \<Rightarrow> vec_at row y)"

text \<open>\<^verbatim>\<open>Board[x][y] = v\<close>.\<close>

definition board_put :: "board \<Rightarrow> cint \<Rightarrow> cint \<Rightarrow> cint \<Rightarrow> error + board" where
  "board_put Board x y v =
     (case vec_at Board x of
        Inl e \<Rightarrow> Inl e
      | Inr row \<Rightarrow>
          (case vec_at row y of
             Inl e \<Rightarrow> Inl e
           | Inr old \<Rightarrow> Inr (Board[nat (sint x) := row[nat (sint y) := v]])))"

section \<open>findMinimumIndex\<close>

text \<open>
  The loop \<^verbatim>\<open>for (int i = 1; i < vec.size(); i++)\<close> of lines 56 to 61. The comparison
  \<^verbatim>\<open>i < vec.size()\<close> is unsigned: a negative \<open>i\<close> ends the loop.
\<close>

function findMinimumIndex_loop :: "cint list \<Rightarrow> cint \<Rightarrow> cint \<Rightarrow> cint \<Rightarrow> cint" where
  "findMinimumIndex_loop vec i smallest index =
     (if 0 \<le>s i \<and> nat (sint i) < length vec then
        (if vec ! nat (sint i) <s smallest
         then findMinimumIndex_loop vec (i + 1) (vec ! nat (sint i)) i
         else findMinimumIndex_loop vec (i + 1) smallest index)
      else index)"
  by pat_completeness auto

lemma sint_succ: "sint (i::cint) \<noteq> 2147483647 \<Longrightarrow> sint (i + 1) = sint i + 1"
proof -
  assume a: "sint i \<noteq> 2147483647"
  have "sint i < 2 ^ 31" "- (2 ^ 31) \<le> sint i"
    using sint_lt [of i] sint_ge [of i] by simp_all
  then have "- (2 ^ 31) \<le> sint i + 1" "sint i + 1 < 2 ^ 31" using a by simp_all
  then have "signed_take_bit 31 (sint i + 1) = sint i + 1"
    by (rule signed_take_bit_int_eq_self)
  then show ?thesis by (simp add: sint_word_ariths)
qed

lemma sint_succ_max: "sint (i::cint) = 2147483647 \<Longrightarrow> \<not> 0 \<le>s i + 1"
proof -
  assume a: "sint i = 2147483647"
  have "i = word_of_int (sint i)" by simp
  then have "i = 2147483647" unfolding a by simp
  then show ?thesis by (simp add: word_sle_eq)
qed

termination findMinimumIndex_loop
proof (relation "measure (\<lambda>(vec, i, smallest, index). if 0 \<le>s i then nat (2147483648 - sint i) else 0)")
  show "wf (measure (\<lambda>(vec, i, smallest, index). if 0 \<le>s i then nat (2147483648 - sint i) else 0))"
    by simp
next
  fix vec :: "cint list" and i smallest index :: cint
  assume "0 \<le>s i \<and> nat (sint i) < length vec"
  then have pos: "0 \<le>s i" by simp
  have lt: "sint i < 2 ^ 31" using sint_lt [of i] by simp
  have "(if 0 \<le>s i + 1 then nat (2147483648 - sint (i + 1)) else 0) < nat (2147483648 - sint i)"
  proof (cases "sint i = 2147483647")
    case True
    then show ?thesis using sint_succ_max [OF True] by simp
  next
    case False
    then show ?thesis using lt by (simp add: sint_succ)
  qed
  then show "((vec, i + 1, vec ! nat (sint i), i), vec, i, smallest, index)
       \<in> measure (\<lambda>(vec, i, smallest, index). if 0 \<le>s i then nat (2147483648 - sint i) else 0)"
    and "((vec, i + 1, smallest, index), vec, i, smallest, index)
       \<in> measure (\<lambda>(vec, i, smallest, index). if 0 \<le>s i then nat (2147483648 - sint i) else 0)"
    using pos by simp_all
qed

declare findMinimumIndex_loop.simps [simp del]

text \<open>
  Lines 53 to 63. \<^verbatim>\<open>int smallest = vec[0]\<close> is read before the loop, whatever the
  size of the vector.
\<close>

definition findMinimumIndex :: "cint list \<Rightarrow> error + cint" where
  "findMinimumIndex vec =
     (case vec_at vec 0 of
        Inl e \<Rightarrow> Inl e
      | Inr smallest \<Rightarrow> Inr (findMinimumIndex_loop vec 1 smallest 0))"

section \<open>The move generator\<close>

text \<open>Lines 72 to 74.\<close>

definition isOnBoard :: "cint \<Rightarrow> cint \<Rightarrow> cint \<Rightarrow> cint \<Rightarrow> bool" where
  "isOnBoard x y boardX boardY \<longleftrightarrow> (0 \<le>s x) \<and> (x <s boardX) \<and> (0 \<le>s y) \<and> (y <s boardY)"

text \<open>The two offset tables of lines 87 and 88.\<close>

definition dx :: "cint list" where
  "dx = [2, 1, -1, -2, -2, -1, 1, 2]"

definition dy :: "cint list" where
  "dy = [1, 2, 2, 1, -1, -2, -2, -1]"

text \<open>
  The loop of lines 89 to 95, over the pairs \<open>(dx[i], dy[i])\<close> that are left. The
  \<^verbatim>\<open>&&\<close> of line 92 reads the board only for a position that \<open>isOnBoard\<close> accepts.
\<close>

fun findMoves_loop ::
  "(cint \<times> cint) list \<Rightarrow> cint \<Rightarrow> cint \<Rightarrow> cint \<Rightarrow> cint \<Rightarrow> board \<Rightarrow> square list
     \<Rightarrow> error + square list" where
  "findMoves_loop [] x y boardX boardY Board moveArray = Inr moveArray"
| "findMoves_loop ((dxi, dyi) # rest) x y boardX boardY Board moveArray =
     (let newX = x + dxi; newY = y + dyi in
      if isOnBoard newX newY boardX boardY then
        (case board_at Board newX newY of
           Inl e \<Rightarrow> Inl e
         | Inr v \<Rightarrow>
             findMoves_loop rest x y boardX boardY Board
               (if v \<noteq> 2 then moveArray @ [(newX, newY)] else moveArray))
      else findMoves_loop rest x y boardX boardY Board moveArray)"

text \<open>Lines 85 to 97.\<close>

definition findMovesFromSquare ::
  "cint \<Rightarrow> cint \<Rightarrow> cint \<Rightarrow> cint \<Rightarrow> board \<Rightarrow> error + square list" where
  "findMovesFromSquare x y boardX boardY Board =
     findMoves_loop (zip dx dy) x y boardX boardY Board []"

section \<open>Facts about vectors and boards\<close>

text \<open>
  The cell a position names, the positions a board has, and the number of cells with a
  given property: the vocabulary of the statements below. \<open>unvisited_after\<close> counts
  the cells that are not 2 once the knight's cell is; it goes down by one with every
  move, which is why \<^verbatim>\<open>makeMove\<close> terminates.
\<close>

definition on_grid :: "board \<Rightarrow> cint \<Rightarrow> cint \<Rightarrow> bool" where
  "on_grid Board x y \<longleftrightarrow>
     0 \<le>s x \<and> nat (sint x) < length Board \<and> 0 \<le>s y \<and> nat (sint y) < length (Board ! nat (sint x))"

definition cell :: "board \<Rightarrow> cint \<Rightarrow> cint \<Rightarrow> cint" where
  "cell Board x y = Board ! nat (sint x) ! nat (sint y)"

definition count_cells :: "(cint \<Rightarrow> bool) \<Rightarrow> board \<Rightarrow> nat" where
  "count_cells P Board = sum_list (map (\<lambda>row. length (filter P row)) Board)"

definition unvisited_after :: "board \<Rightarrow> cint \<Rightarrow> cint \<Rightarrow> nat" where
  "unvisited_after Board x y =
     count_cells (\<lambda>v. v \<noteq> 2)
       (Board[nat (sint x) := (Board ! nat (sint x))[nat (sint y) := 2]])"

lemma vec_at_Inr:
  "vec_at xs i = Inr v \<longleftrightarrow> 0 \<le>s i \<and> nat (sint i) < length xs \<and> v = xs ! nat (sint i)"
  by (auto simp: vec_at_def)

lemma board_at_Inr: "board_at Board x y = Inr v \<longleftrightarrow> on_grid Board x y \<and> v = cell Board x y"
  by (auto simp: board_at_def on_grid_def cell_def vec_at_def split: sum.splits if_splits)

lemma board_put_Inr:
  "board_put Board x y v = Inr B' \<longleftrightarrow>
     on_grid Board x y \<and> B' = Board[nat (sint x) := (Board ! nat (sint x))[nat (sint y) := v]]"
  by (auto simp: board_put_def on_grid_def vec_at_def split: sum.splits if_splits)

lemma length_filter_update:
  "c < length row \<Longrightarrow>
     length (filter P (row[c := v])) + (if P (row ! c) then 1 else 0)
       = length (filter P row) + (if P v then 1 else 0)"
proof (induction row arbitrary: c)
  case Nil
  then show ?case by simp
next
  case (Cons a row)
  show ?case
  proof (cases c)
    case 0
    then show ?thesis by simp
  next
    case (Suc k)
    then have "k < length row" using Cons.prems by simp
    from Cons.IH [OF this] show ?thesis using Suc by simp
  qed
qed

lemma sum_list_map_update:
  fixes f :: "'a \<Rightarrow> nat"
  shows "r < length xs \<Longrightarrow> sum_list (map f (xs[r := x])) + f (xs ! r) = sum_list (map f xs) + f x"
  by (induction xs arbitrary: r) (auto split: nat.splits)

lemma count_cells_update:
  assumes "r < length Board" "c < length (Board ! r)"
  shows "count_cells P (Board[r := (Board ! r)[c := v]]) + (if P (Board ! r ! c) then 1 else 0)
           = count_cells P Board + (if P v then 1 else 0)"
proof -
  let ?f = "\<lambda>row. length (filter P row)"
  have "sum_list (map ?f (Board[r := (Board ! r)[c := v]])) + ?f (Board ! r)
          = sum_list (map ?f Board) + ?f ((Board ! r)[c := v])"
    using assms(1) by (rule sum_list_map_update)
  moreover have "?f ((Board ! r)[c := v]) + (if P (Board ! r ! c) then 1 else 0)
          = ?f (Board ! r) + (if P v then 1 else 0)"
    using assms(2) by (rule length_filter_update)
  ultimately show ?thesis unfolding count_cells_def by linarith
qed

section \<open>Facts about the move generator\<close>

text \<open>
  What line 92 accepts, as a predicate on the candidate, and a candidate as the source
  moved by one offset pair.
\<close>

definition candidate_ok :: "cint \<Rightarrow> cint \<Rightarrow> board \<Rightarrow> square \<Rightarrow> bool" where
  "candidate_ok boardX boardY Board p \<longleftrightarrow>
     isOnBoard (fst p) (snd p) boardX boardY \<and> cell Board (fst p) (snd p) \<noteq> 2"

definition shift :: "cint \<Rightarrow> cint \<Rightarrow> cint \<times> cint \<Rightarrow> square" where
  "shift x y d = (x + fst d, y + snd d)"

lemma findMoves_loop_Inr:
  "findMoves_loop offs x y boardX boardY Board acc = Inr ms \<Longrightarrow>
     ms = acc @ filter (candidate_ok boardX boardY Board) (map (shift x y) offs)"
proof (induction offs arbitrary: acc)
  case Nil
  then show ?case by simp
next
  case (Cons d offs)
  obtain a b where d: "d = (a, b)" by (cases d)
  show ?case
  proof (cases "isOnBoard (x + a) (y + b) boardX boardY")
    case False
    with Cons.prems d have "findMoves_loop offs x y boardX boardY Board acc = Inr ms"
      by simp
    from Cons.IH [OF this] False d show ?thesis
      by (simp add: candidate_ok_def shift_def)
  next
    case True
    with Cons.prems d obtain v where
      v: "board_at Board (x + a) (y + b) = Inr v" and
      rest: "findMoves_loop offs x y boardX boardY Board
               (if v \<noteq> 2 then acc @ [(x + a, y + b)] else acc) = Inr ms"
      by (auto simp: Let_def split: sum.splits)
    from v have "v = cell Board (x + a) (y + b)" by (simp add: board_at_Inr)
    with Cons.IH [OF rest] True d show ?thesis
      by (simp add: candidate_ok_def shift_def)
  qed
qed

lemma findMoves_loop_reads:
  "findMoves_loop offs x y boardX boardY Board acc = Inr ms \<Longrightarrow> d \<in> set offs \<Longrightarrow>
     isOnBoard (fst (shift x y d)) (snd (shift x y d)) boardX boardY \<Longrightarrow>
     on_grid Board (fst (shift x y d)) (snd (shift x y d))"
proof (induction offs arbitrary: acc)
  case Nil
  then show ?case by simp
next
  case (Cons e offs)
  obtain a b where e: "e = (a, b)" by (cases e)
  show ?case
  proof (cases "isOnBoard (x + a) (y + b) boardX boardY")
    case False
    with Cons.prems(1) e have rest: "findMoves_loop offs x y boardX boardY Board acc = Inr ms"
      by simp
    from False e Cons.prems(2,3) have "d \<in> set offs" by (auto simp: shift_def)
    from Cons.IH [OF rest this Cons.prems(3)] show ?thesis .
  next
    case True
    with Cons.prems(1) e obtain v where
      v: "board_at Board (x + a) (y + b) = Inr v" and
      rest: "findMoves_loop offs x y boardX boardY Board
               (if v \<noteq> 2 then acc @ [(x + a, y + b)] else acc) = Inr ms"
      by (auto simp: Let_def split: sum.splits)
    show ?thesis
    proof (cases "d = e")
      case True
      with v e show ?thesis by (simp add: board_at_Inr shift_def)
    next
      case False
      with Cons.prems(2) have "d \<in> set offs" by simp
      from Cons.IH [OF rest this Cons.prems(3)] show ?thesis .
    qed
  qed
qed

lemma findMoves_loop_total:
  "(\<And>d. d \<in> set offs \<Longrightarrow> isOnBoard (fst (shift x y d)) (snd (shift x y d)) boardX boardY \<Longrightarrow>
          on_grid Board (fst (shift x y d)) (snd (shift x y d))) \<Longrightarrow>
   \<exists>ms. findMoves_loop offs x y boardX boardY Board acc = Inr ms"
proof (induction offs arbitrary: acc)
  case Nil
  then show ?case by simp
next
  case (Cons e offs)
  obtain a b where e: "e = (a, b)" by (cases e)
  have IH: "\<exists>ms. findMoves_loop offs x y boardX boardY Board acc' = Inr ms" for acc'
    using Cons.IH Cons.prems by simp
  show ?case
  proof (cases "isOnBoard (x + a) (y + b) boardX boardY")
    case False
    then show ?thesis using IH e by simp
  next
    case True
    with Cons.prems [of e] e have "on_grid Board (x + a) (y + b)" by (simp add: shift_def)
    then have "board_at Board (x + a) (y + b) = Inr (cell Board (x + a) (y + b))"
      by (simp add: board_at_Inr)
    then show ?thesis using IH e True by (simp add: Let_def)
  qed
qed

lemma findMovesFromSquare_Inr:
  "findMovesFromSquare x y boardX boardY Board = Inr ms \<Longrightarrow>
     ms = filter (candidate_ok boardX boardY Board) (map (shift x y) (zip dx dy))"
  unfolding findMovesFromSquare_def by (drule findMoves_loop_Inr) simp

lemma offsets_nonzero: "d \<in> set (zip dx dy) \<Longrightarrow> fst d \<noteq> 0"
  by (auto simp: dx_def dy_def)

lemma shift_moves: "d \<in> set (zip dx dy) \<Longrightarrow> shift x y d \<noteq> (x, y)"
  using offsets_nonzero [of d] by (simp add: shift_def)

lemma candidate_facts:
  assumes "findMovesFromSquare x y boardX boardY Board = Inr ms" and "p \<in> set ms"
  shows "isOnBoard (fst p) (snd p) boardX boardY"
    and "on_grid Board (fst p) (snd p)"
    and "cell Board (fst p) (snd p) \<noteq> 2"
    and "p \<noteq> (x, y)"
    and "\<exists>d \<in> set (zip dx dy). p = shift x y d"
proof -
  from findMovesFromSquare_Inr [OF assms(1)] assms(2)
  obtain d where d: "d \<in> set (zip dx dy)" "p = shift x y d"
    and ok: "candidate_ok boardX boardY Board p"
    by auto
  from ok show "isOnBoard (fst p) (snd p) boardX boardY" "cell Board (fst p) (snd p) \<noteq> 2"
    by (simp_all add: candidate_ok_def)
  from d show "p \<noteq> (x, y)" by (simp add: shift_moves)
  from d show "\<exists>d \<in> set (zip dx dy). p = shift x y d" by blast
  from assms(1) have "findMoves_loop (zip dx dy) x y boardX boardY Board [] = Inr ms"
    by (simp add: findMovesFromSquare_def)
  from findMoves_loop_reads [OF this d(1)] ok d(2)
  show "on_grid Board (fst p) (snd p)" by (simp add: candidate_ok_def)
qed

lemma index_inj:
  assumes "0 \<le>s (a::cint)" "0 \<le>s (b::cint)" "nat (sint a) = nat (sint b)"
  shows "a = b"
proof -
  from assms have "sint a = sint b" by (simp add: word_sle_eq)
  then show ?thesis by (rule signed_word_eqI)
qed

section \<open>The tour driver\<close>

text \<open>
  The loop of lines 120 to 122: one call of the move generator for every candidate, on
  the board as it is before the move; \<^verbatim>\<open>size()\<close> is converted to \<^verbatim>\<open>int\<close>.
\<close>

fun sizes_loop :: "square list \<Rightarrow> cint \<Rightarrow> cint \<Rightarrow> board \<Rightarrow> cint list \<Rightarrow> error + cint list" where
  "sizes_loop [] boardX boardY Board sizes = Inr sizes"
| "sizes_loop (p # ps) boardX boardY Board sizes =
     (case findMovesFromSquare (fst p) (snd p) boardX boardY Board of
        Inl e \<Rightarrow> Inl e
      | Inr moves \<Rightarrow> sizes_loop ps boardX boardY Board (sizes @ [of_nat (length moves)]))"

text \<open>
  \<^verbatim>\<open>makeMove\<close> returns nothing: it prints boards and counts moves through a
  reference. The model returns what the call that finds no move holds (its copy of the
  board, the knight's position, the counter) and the boards handed to
  \<^verbatim>\<open>printBoard\<close> so far, in order.
\<close>

record halted =
  final_Board :: board
  final_knightRow :: cint
  final_knightCol :: cint
  final_movesMade :: cint
  boards_printed :: "board list"

text \<open>
  Lines 114 to 136. \<open>out\<close> is the output so far; \<open>movesMade\<close> is the counter behind
  the reference.
\<close>

function makeMove ::
  "board \<Rightarrow> cint \<Rightarrow> cint \<Rightarrow> cint \<Rightarrow> cint \<Rightarrow> cint \<Rightarrow> board list \<Rightarrow> error + halted" where
  "makeMove Board boardX boardY knightRow knightCol movesMade out =
     (case findMovesFromSquare knightRow knightCol boardX boardY Board of
        Inl e \<Rightarrow> Inl e
      | Inr array \<Rightarrow>
          if array \<noteq> [] then
            (case sizes_loop array boardX boardY Board [] of
               Inl e \<Rightarrow> Inl e
             | Inr sizes \<Rightarrow>
                 (case findMinimumIndex sizes of
                    Inl e \<Rightarrow> Inl e
                  | Inr index \<Rightarrow>
                      (case vec_at array index of
                         Inl e \<Rightarrow> Inl e
                       | Inr nextMove \<Rightarrow>
                           (case board_put Board knightRow knightCol 2 of
                              Inl e \<Rightarrow> Inl e
                            | Inr Board1 \<Rightarrow>
                                (case board_put Board1 (fst nextMove) (snd nextMove) 1 of
                                   Inl e \<Rightarrow> Inl e
                                 | Inr Board2 \<Rightarrow>
                                     makeMove Board2 boardX boardY (fst nextMove) (snd nextMove)
                                       (movesMade + 1) (out @ [Board2]))))))
          else
            Inr \<lparr>final_Board = Board, final_knightRow = knightRow, final_knightCol = knightCol,
                 final_movesMade = movesMade, boards_printed = out\<rparr>)"
  by pat_completeness auto

lemma advance_decreases:
  assumes array: "findMovesFromSquare knightRow knightCol boardX boardY Board = Inr array"
    and nextMove: "vec_at array index = Inr nextMove"
    and put1: "board_put Board knightRow knightCol 2 = Inr Board1"
    and put2: "board_put Board1 (fst nextMove) (snd nextMove) 1 = Inr Board2"
  shows "Suc (unvisited_after Board2 (fst nextMove) (snd nextMove))
           = unvisited_after Board knightRow knightCol"
proof -
  let ?r = "nat (sint knightRow)" and ?c = "nat (sint knightCol)"
  let ?r' = "nat (sint (fst nextMove))" and ?c' = "nat (sint (snd nextMove))"
  from nextMove have mem: "nextMove \<in> set array" by (auto simp: vec_at_Inr)
  note facts = candidate_facts [OF array mem]
  from put1 have k: "on_grid Board knightRow knightCol"
    and B1: "Board1 = Board[?r := (Board ! ?r)[?c := 2]]"
    by (simp_all add: board_put_Inr)
  from put2 have n1: "on_grid Board1 (fst nextMove) (snd nextMove)"
    and B2: "Board2 = Board1[?r' := (Board1 ! ?r')[?c' := 1]]"
    by (simp_all add: board_put_Inr)
  have neq: "(?r', ?c') \<noteq> (?r, ?c)"
  proof
    assume eq: "(?r', ?c') = (?r, ?c)"
    from facts(2) k eq have "fst nextMove = knightRow" "snd nextMove = knightCol"
      by (auto simp: on_grid_def intro: index_inj)
    with facts(4) show False by (cases nextMove) simp
  qed
  from n1 have r': "?r' < length Board1" and c': "?c' < length (Board1 ! ?r')"
    by (simp_all add: on_grid_def)
  have same: "Board1 ! ?r' ! ?c' = Board ! ?r' ! ?c'"
    using neq k unfolding B1 on_grid_def
    by (cases "?r' = ?r") (auto simp: nth_list_update)
  with facts(3) have unvisited: "Board1 ! ?r' ! ?c' \<noteq> 2" by (simp add: cell_def)
  have "Board2[?r' := (Board2 ! ?r')[?c' := 2]] = Board1[?r' := (Board1 ! ?r')[?c' := 2]]"
    unfolding B2 using r' by simp
  then have "unvisited_after Board2 (fst nextMove) (snd nextMove)
      = count_cells (\<lambda>v. v \<noteq> 2) (Board1[?r' := (Board1 ! ?r')[?c' := 2]])"
    by (simp add: unvisited_after_def)
  moreover have "count_cells (\<lambda>v. v \<noteq> 2) (Board1[?r' := (Board1 ! ?r')[?c' := 2]]) + 1
      = count_cells (\<lambda>v. v \<noteq> 2) Board1"
    using count_cells_update [OF r' c', of "\<lambda>v. v \<noteq> 2" 2] unvisited by simp
  moreover have "unvisited_after Board knightRow knightCol = count_cells (\<lambda>v. v \<noteq> 2) Board1"
    by (simp add: unvisited_after_def B1)
  ultimately show ?thesis by simp
qed

termination makeMove
proof (relation "measure (\<lambda>(Board, boardX, boardY, knightRow, knightCol, movesMade, out).
                    unvisited_after Board knightRow knightCol)")
  show "wf (measure (\<lambda>(Board, boardX, boardY, knightRow, knightCol, movesMade, out).
                    unvisited_after Board knightRow knightCol))"
    by simp
next
  fix Board :: board and boardX boardY knightRow knightCol movesMade :: cint
    and out :: "board list" and array sizes index nextMove Board1 Board2
  assume "findMovesFromSquare knightRow knightCol boardX boardY Board = Inr array"
    and "vec_at array index = Inr nextMove"
    and "board_put Board knightRow knightCol 2 = Inr Board1"
    and "board_put Board1 (fst nextMove) (snd nextMove) 1 = Inr Board2"
  from advance_decreases [OF this]
  show "((Board2, boardX, boardY, fst nextMove, snd nextMove, movesMade + 1, out @ [Board2]),
          Board, boardX, boardY, knightRow, knightCol, movesMade, out)
        \<in> measure (\<lambda>(Board, boardX, boardY, knightRow, knightCol, movesMade, out).
                    unvisited_after Board knightRow knightCol)"
    by simp
qed

declare makeMove.simps [simp del]

section \<open>main, after the input\<close>

text \<open>
  What the program writes once the board size and the start square have been read: a
  board for every call of \<^verbatim>\<open>printBoard\<close>, then one line. (The banner and the prompts
  come before, while the input is read.)
\<close>

datatype printed = Rendered board | Line string

text \<open>
  Lines 186 to 200. \<open>boardSize\<close> and \<open>start\<close> are the two pairs
  \<^verbatim>\<open>getPairFromUser\<close> returned, the start already 0-based. The model also returns
  what the last call of \<^verbatim>\<open>makeMove\<close> held.
\<close>

definition main :: "cint \<times> cint \<Rightarrow> cint \<times> cint \<Rightarrow> error + (halted \<times> printed list)" where
  "main boardSize start =
     (if fst boardSize <s 0 \<or> snd boardSize <s 0 then Inl BadAlloc
      else
        (case board_put
                (replicate (nat (sint (fst boardSize))) (replicate (nat (sint (snd boardSize))) 0))
                (fst start) (snd start) 1 of
           Inl e \<Rightarrow> Inl e
         | Inr Board \<Rightarrow>
             (case makeMove Board (fst boardSize) (snd boardSize) (fst start) (snd start) 0 [Board] of
                Inl e \<Rightarrow> Inl e
              | Inr h \<Rightarrow>
                  Inr (h, map Rendered (boards_printed h) @
                          [Line (if final_movesMade h = fst boardSize * snd boardSize - 1
                                 then ''Tour Completed!'' else ''No More Moves!'')]))))"



section \<open>One step of the tour driver\<close>

text \<open>
  \<open>advance\<close> names what one call of \<^verbatim>\<open>makeMove\<close> does before it calls itself, when
  the candidate list is not empty and every access is in range: from board \<open>Board\<close>
  with the knight on \<open>k\<close> to board \<open>Board'\<close> with the knight on \<open>k'\<close>. The lemmas
  after it unfold \<^verbatim>\<open>makeMove\<close> once and give an invariant rule for a whole run.
\<close>

definition advance :: "cint \<Rightarrow> cint \<Rightarrow> board \<Rightarrow> square \<Rightarrow> board \<Rightarrow> square \<Rightarrow> bool" where
  "advance boardX boardY Board k Board' k' \<longleftrightarrow>
     (\<exists>array sizes index Board1.
        findMovesFromSquare (fst k) (snd k) boardX boardY Board = Inr array \<and> array \<noteq> [] \<and>
        sizes_loop array boardX boardY Board [] = Inr sizes \<and>
        findMinimumIndex sizes = Inr index \<and>
        vec_at array index = Inr k' \<and>
        board_put Board (fst k) (snd k) 2 = Inr Board1 \<and>
        board_put Board1 (fst k') (snd k') 1 = Inr Board')"

lemma makeMove_halts:
  "findMovesFromSquare knightRow knightCol boardX boardY Board = Inr [] \<Longrightarrow>
   makeMove Board boardX boardY knightRow knightCol movesMade out =
     Inr \<lparr>final_Board = Board, final_knightRow = knightRow, final_knightCol = knightCol,
          final_movesMade = movesMade, boards_printed = out\<rparr>"
  by (simp add: makeMove.simps)

lemma makeMove_advances:
  "advance boardX boardY Board (knightRow, knightCol) Board' k' \<Longrightarrow>
   makeMove Board boardX boardY knightRow knightCol movesMade out =
     makeMove Board' boardX boardY (fst k') (snd k') (movesMade + 1) (out @ [Board'])"
  unfolding advance_def by (subst makeMove.simps) auto

lemma makeMove_Inr_cases:
  assumes "makeMove Board boardX boardY knightRow knightCol movesMade out = Inr h"
  obtains
    (halt) "findMovesFromSquare knightRow knightCol boardX boardY Board = Inr []"
      "h = \<lparr>final_Board = Board, final_knightRow = knightRow, final_knightCol = knightCol,
            final_movesMade = movesMade, boards_printed = out\<rparr>"
  | (move) Board' k' where "advance boardX boardY Board (knightRow, knightCol) Board' k'"
      "makeMove Board' boardX boardY (fst k') (snd k') (movesMade + 1) (out @ [Board']) = Inr h"
  using assms
  by (subst (asm) makeMove.simps) (auto simp: advance_def split: sum.splits if_splits)

lemma makeMove_invariant:
  assumes "makeMove Board boardX boardY knightRow knightCol movesMade out = Inr h"
    and "I Board knightRow knightCol movesMade out"
    and step: "\<And>B kr kc m out B' k'. I B kr kc m out \<Longrightarrow> advance boardX boardY B (kr, kc) B' k' \<Longrightarrow>
                 I B' (fst k') (snd k') (m + 1) (out @ [B'])"
  shows "I (final_Board h) (final_knightRow h) (final_knightCol h) (final_movesMade h)
           (boards_printed h) \<and>
         findMovesFromSquare (final_knightRow h) (final_knightCol h) boardX boardY (final_Board h)
           = Inr []"
  using assms
proof (induction Board boardX boardY knightRow knightCol movesMade out rule: makeMove.induct)
  case (1 Board boardX boardY knightRow knightCol movesMade out)
  from "1.prems"(1) show ?case
  proof (cases rule: makeMove_Inr_cases)
    case halt
    with "1.prems"(2) show ?thesis by simp
  next
    case (move Board' k')
    from move(1) obtain array sizes index Board1 where
      a: "findMovesFromSquare knightRow knightCol boardX boardY Board = Inr array" "array \<noteq> []"
        "sizes_loop array boardX boardY Board [] = Inr sizes"
        "findMinimumIndex sizes = Inr index"
        "vec_at array index = Inr k'"
        "board_put Board knightRow knightCol 2 = Inr Board1"
        "board_put Board1 (fst k') (snd k') 1 = Inr Board'"
      by (auto simp: advance_def)
    have "I Board' (fst k') (snd k') (movesMade + 1) (out @ [Board'])"
      using "1.prems"(2) move(1) by (rule "1.prems"(3))
    from "1.IH" [OF a move(2) this "1.prems"(3)] show ?thesis by simp
  qed
qed

section \<open>Runs without a failing access\<close>

text \<open>
  A board fits the bounds \<open>boardX\<close>, \<open>boardY\<close> when it has at least that many rows and
  every row at least that many cells. Then \<open>isOnBoard\<close> guards every read, and a run
  that starts on the board never leaves it.
\<close>

definition board_fits :: "cint \<Rightarrow> cint \<Rightarrow> board \<Rightarrow> bool" where
  "board_fits boardX boardY Board \<longleftrightarrow>
     nat (sint boardX) \<le> length Board \<and> (\<forall>row \<in> set Board. nat (sint boardY) \<le> length row)"

lemma nth_nested_update:
  "r < length B \<Longrightarrow> c < length (B ! r) \<Longrightarrow>
     B[r := (B ! r)[c := v]] ! r' ! c' = (if r' = r \<and> c' = c then v else B ! r' ! c')"
  by (auto simp: nth_list_update)

lemma isOnBoard_on_grid:
  assumes "board_fits boardX boardY Board" "isOnBoard x y boardX boardY"
  shows "on_grid Board x y"
proof -
  from assms(2) have x: "0 \<le> sint x" "sint x < sint boardX" and y: "0 \<le> sint y" "sint y < sint boardY"
    by (simp_all add: isOnBoard_def word_sle_eq word_sless_alt)
  from x have "nat (sint x) < nat (sint boardX)" by simp
  moreover from assms(1) have "nat (sint boardX) \<le> length Board" by (simp add: board_fits_def)
  ultimately have r: "nat (sint x) < length Board" by linarith
  then have "Board ! nat (sint x) \<in> set Board" by simp
  with assms(1) have "nat (sint boardY) \<le> length (Board ! nat (sint x))"
    by (simp add: board_fits_def)
  moreover from y have "nat (sint y) < nat (sint boardY)" by simp
  ultimately have "nat (sint y) < length (Board ! nat (sint x))" by linarith
  with r x y show ?thesis by (simp add: on_grid_def word_sle_eq)
qed

lemma findMovesFromSquare_total:
  assumes "board_fits boardX boardY Board"
  shows "\<exists>ms. findMovesFromSquare x y boardX boardY Board = Inr ms"
  unfolding findMovesFromSquare_def
  by (rule findMoves_loop_total) (rule isOnBoard_on_grid [OF assms])

lemma board_fits_put:
  assumes "board_fits boardX boardY Board" "board_put Board x y v = Inr Board'"
  shows "board_fits boardX boardY Board'"
proof -
  from assms(2) have g: "on_grid Board x y"
    and B': "Board' = Board[nat (sint x) := (Board ! nat (sint x))[nat (sint y) := v]]"
    by (simp_all add: board_put_Inr)
  have "nat (sint boardY) \<le> length row" if "row \<in> set Board'" for row
  proof -
    from that have "row \<in> insert ((Board ! nat (sint x))[nat (sint y) := v]) (set Board)"
      unfolding B' using set_update_subset_insert by fast
    moreover have "Board ! nat (sint x) \<in> set Board" using g by (simp add: on_grid_def)
    ultimately show ?thesis using assms(1) by (auto simp: board_fits_def)
  qed
  with assms(1) show ?thesis by (simp add: board_fits_def B')
qed

lemma on_grid_put:
  assumes "board_put Board x y v = Inr Board'"
  shows "on_grid Board' a b \<longleftrightarrow> on_grid Board a b"
proof -
  from assms have g: "on_grid Board x y"
    and B': "Board' = Board[nat (sint x) := (Board ! nat (sint x))[nat (sint y) := v]]"
    by (simp_all add: board_put_Inr)
  show ?thesis unfolding B' on_grid_def using g
    by (cases "nat (sint a) = nat (sint x)") (auto simp: on_grid_def)
qed

lemma cell_put:
  assumes "board_put Board x y v = Inr Board'"
  shows "Board' ! r ! c = (if r = nat (sint x) \<and> c = nat (sint y) then v else Board ! r ! c)"
proof -
  from assms have g: "on_grid Board x y"
    and B': "Board' = Board[nat (sint x) := (Board ! nat (sint x))[nat (sint y) := v]]"
    by (simp_all add: board_put_Inr)
  from g show ?thesis unfolding B' by (simp add: nth_nested_update on_grid_def)
qed

lemma sizes_loop_total:
  assumes "board_fits boardX boardY Board"
  shows "\<exists>sizes. sizes_loop ps boardX boardY Board acc = Inr sizes"
proof (induction ps arbitrary: acc)
  case Nil
  then show ?case by simp
next
  case (Cons p ps)
  from findMovesFromSquare_total [OF assms] obtain ms where
    "findMovesFromSquare (fst p) (snd p) boardX boardY Board = Inr ms" by blast
  with Cons.IH show ?case by simp
qed

lemma sizes_loop_length:
  "sizes_loop ps boardX boardY Board acc = Inr sizes \<Longrightarrow> length sizes = length acc + length ps"
  by (induction ps arbitrary: acc) (auto split: sum.splits)

lemma findMinimumIndex_loop_stop:
  "\<not> (0 \<le>s i \<and> nat (sint i) < length vec) \<Longrightarrow>
     findMinimumIndex_loop vec i smallest index = index"
  by (subst findMinimumIndex_loop.simps) auto

lemma findMinimumIndex_loop_less:
  "0 \<le>s i \<and> nat (sint i) < length vec \<Longrightarrow> vec ! nat (sint i) <s smallest \<Longrightarrow>
     findMinimumIndex_loop vec i smallest index
       = findMinimumIndex_loop vec (i + 1) (vec ! nat (sint i)) i"
  by (subst findMinimumIndex_loop.simps) simp

lemma findMinimumIndex_loop_keep:
  "0 \<le>s i \<and> nat (sint i) < length vec \<Longrightarrow> \<not> vec ! nat (sint i) <s smallest \<Longrightarrow>
     findMinimumIndex_loop vec i smallest index
       = findMinimumIndex_loop vec (i + 1) smallest index"
  by (subst findMinimumIndex_loop.simps) simp

lemma findMinimumIndex_loop_range:
  "0 \<le>s index \<Longrightarrow> nat (sint index) < length vec \<Longrightarrow>
     0 \<le>s findMinimumIndex_loop vec i smallest index \<and>
     nat (sint (findMinimumIndex_loop vec i smallest index)) < length vec"
proof (induction vec i smallest index rule: findMinimumIndex_loop.induct)
  case (1 vec i smallest index)
  show ?case
  proof (cases "0 \<le>s i \<and> nat (sint i) < length vec")
    case False
    with "1.prems" show ?thesis by (simp add: findMinimumIndex_loop_stop)
  next
    case True
    show ?thesis
    proof (cases "vec ! nat (sint i) <s smallest")
      case less: True
      from "1.IH"(1) [OF True less] True
      show ?thesis by (simp add: findMinimumIndex_loop_less [OF True less])
    next
      case ge: False
      from "1.IH"(2) [OF True ge "1.prems"] True
      show ?thesis by (simp add: findMinimumIndex_loop_keep [OF True ge])
    qed
  qed
qed

lemma findMinimumIndex_Nil: "findMinimumIndex [] = Inl OutOfRange"
  by (simp add: findMinimumIndex_def vec_at_def)

lemma findMinimumIndex_range:
  assumes "vec \<noteq> []"
  shows "\<exists>index. findMinimumIndex vec = Inr index \<and> 0 \<le>s index \<and> nat (sint index) < length vec"
proof -
  from assms have "vec_at vec 0 = Inr (vec ! 0)" by (simp add: vec_at_def)
  moreover have "0 \<le>s findMinimumIndex_loop vec 1 (vec ! 0) 0 \<and>
     nat (sint (findMinimumIndex_loop vec 1 (vec ! 0) 0)) < length vec"
    using assms by (intro findMinimumIndex_loop_range) simp_all
  ultimately show ?thesis by (simp add: findMinimumIndex_def)
qed

lemma advance_exists:
  assumes fits: "board_fits boardX boardY Board" and k: "on_grid Board knightRow knightCol"
    and array: "findMovesFromSquare knightRow knightCol boardX boardY Board = Inr array"
      "array \<noteq> []"
  shows "\<exists>Board' k'. advance boardX boardY Board (knightRow, knightCol) Board' k'"
proof -
  from sizes_loop_total [OF fits] obtain sizes where
    sizes: "sizes_loop array boardX boardY Board [] = Inr sizes" by blast
  from sizes_loop_length [OF sizes] have len: "length sizes = length array" by simp
  with array(2) have "sizes \<noteq> []" by auto
  from findMinimumIndex_range [OF this] len obtain index where
    index: "findMinimumIndex sizes = Inr index" "0 \<le>s index" "nat (sint index) < length array"
    by auto
  then obtain k' where k': "vec_at array index = Inr k'" by (simp add: vec_at_def)
  then have mem: "k' \<in> set array" by (auto simp: vec_at_Inr)
  from k obtain Board1 where put1: "board_put Board knightRow knightCol 2 = Inr Board1"
    by (simp add: board_put_Inr)
  from candidate_facts(2) [OF array(1) mem] have "on_grid Board1 (fst k') (snd k')"
    by (simp add: on_grid_put [OF put1])
  then obtain Board' where "board_put Board1 (fst k') (snd k') 1 = Inr Board'"
    by (simp add: board_put_Inr)
  with array sizes index(1) k' put1 show ?thesis unfolding advance_def by auto
qed

lemma advance_keeps_fits:
  assumes "advance boardX boardY Board k Board' k'" "board_fits boardX boardY Board"
  shows "board_fits boardX boardY Board'" and "on_grid Board' (fst k') (snd k')"
proof -
  from assms(1) obtain Board1 where
    put1: "board_put Board (fst k) (snd k) 2 = Inr Board1" and
    put2: "board_put Board1 (fst k') (snd k') 1 = Inr Board'"
    by (auto simp: advance_def)
  from board_fits_put [OF board_fits_put [OF assms(2) put1] put2]
  show "board_fits boardX boardY Board'" .
  from put2 have "on_grid Board1 (fst k') (snd k')" by (simp add: board_put_Inr)
  then show "on_grid Board' (fst k') (snd k')" by (simp add: on_grid_put [OF put2])
qed

lemma makeMove_total:
  "board_fits boardX boardY Board \<Longrightarrow> on_grid Board knightRow knightCol \<Longrightarrow>
     \<exists>h. makeMove Board boardX boardY knightRow knightCol movesMade out = Inr h"
proof (induction Board boardX boardY knightRow knightCol movesMade out rule: makeMove.induct)
  case (1 Board boardX boardY knightRow knightCol movesMade out)
  from findMovesFromSquare_total [OF "1.prems"(1)] obtain array where
    array: "findMovesFromSquare knightRow knightCol boardX boardY Board = Inr array" by blast
  show ?case
  proof (cases "array = []")
    case True
    with array show ?thesis by (simp add: makeMove_halts)
  next
    case False
    from advance_exists [OF "1.prems" array False] obtain Board' k' where
      adv: "advance boardX boardY Board (knightRow, knightCol) Board' k'" by blast
    then obtain sizes index Board1 where
      a: "sizes_loop array boardX boardY Board [] = Inr sizes"
        "findMinimumIndex sizes = Inr index"
        "vec_at array index = Inr k'"
        "board_put Board knightRow knightCol 2 = Inr Board1"
        "board_put Board1 (fst k') (snd k') 1 = Inr Board'"
      using array by (auto simp: advance_def)
    from "1.IH" [OF array False a advance_keeps_fits [OF adv "1.prems"(1)]]
    show ?thesis by (simp add: makeMove_advances [OF adv])
  qed
qed

section \<open>What a run prints and counts\<close>

lemma advance_unvisited:
  assumes "advance boardX boardY Board k Board' k'"
  shows "Suc (unvisited_after Board' (fst k') (snd k')) = unvisited_after Board (fst k) (snd k)"
  using assms unfolding advance_def by (auto intro: advance_decreases)

lemma makeMove_trace:
  "makeMove Board boardX boardY knightRow knightCol movesMade out = Inr h \<Longrightarrow>
     \<exists>tr. boards_printed h = out @ tr \<and> final_movesMade h = movesMade + of_nat (length tr) \<and>
          length tr \<le> unvisited_after Board knightRow knightCol"
proof (induction Board boardX boardY knightRow knightCol movesMade out rule: makeMove.induct)
  case (1 Board boardX boardY knightRow knightCol movesMade out)
  from "1.prems" show ?case
  proof (cases rule: makeMove_Inr_cases)
    case halt
    then show ?thesis by simp
  next
    case (move Board' k')
    from move(1) obtain array sizes index Board1 where
      a: "findMovesFromSquare knightRow knightCol boardX boardY Board = Inr array" "array \<noteq> []"
        "sizes_loop array boardX boardY Board [] = Inr sizes"
        "findMinimumIndex sizes = Inr index"
        "vec_at array index = Inr k'"
        "board_put Board knightRow knightCol 2 = Inr Board1"
        "board_put Board1 (fst k') (snd k') 1 = Inr Board'"
      by (auto simp: advance_def)
    from "1.IH" [OF a move(2)] obtain tr where
      tr: "boards_printed h = (out @ [Board']) @ tr"
        "final_movesMade h = movesMade + 1 + of_nat (length tr)"
        "length tr \<le> unvisited_after Board' (fst k') (snd k')"
      by blast
    from advance_unvisited [OF move(1)] tr(3)
    have "length (Board' # tr) \<le> unvisited_after Board knightRow knightCol" by simp
    moreover from tr(1) have "boards_printed h = out @ (Board' # tr)" by simp
    moreover from tr(2) have "final_movesMade h = movesMade + of_nat (length (Board' # tr))"
      by simp
    ultimately show ?thesis by blast
  qed
qed

lemma advance_effect:
  assumes "advance boardX boardY Board k Board' k'"
  shows "on_grid Board (fst k) (snd k)"
    and "on_grid Board (fst k') (snd k')"
    and "isOnBoard (fst k') (snd k') boardX boardY"
    and "cell Board (fst k') (snd k') \<noteq> 2"
    and "(nat (sint (fst k')), nat (sint (snd k'))) \<noteq> (nat (sint (fst k)), nat (sint (snd k)))"
    and "\<And>r c. Board' ! r ! c =
           (if r = nat (sint (fst k')) \<and> c = nat (sint (snd k')) then 1
            else if r = nat (sint (fst k)) \<and> c = nat (sint (snd k)) then 2
            else Board ! r ! c)"
    and "on_grid Board' (fst k') (snd k')"
proof -
  from assms obtain array index Board1 where
    array: "findMovesFromSquare (fst k) (snd k) boardX boardY Board = Inr array" and
    k': "vec_at array index = Inr k'" and
    put1: "board_put Board (fst k) (snd k) 2 = Inr Board1" and
    put2: "board_put Board1 (fst k') (snd k') 1 = Inr Board'"
    by (auto simp: advance_def)
  from k' have mem: "k' \<in> set array" by (auto simp: vec_at_Inr)
  note facts = candidate_facts [OF array mem]
  from put1 show k: "on_grid Board (fst k) (snd k)" by (simp add: board_put_Inr)
  from facts show g: "on_grid Board (fst k') (snd k')"
    and "isOnBoard (fst k') (snd k') boardX boardY"
    and "cell Board (fst k') (snd k') \<noteq> 2"
    by simp_all
  show "(nat (sint (fst k')), nat (sint (snd k'))) \<noteq> (nat (sint (fst k)), nat (sint (snd k)))"
  proof
    assume "(nat (sint (fst k')), nat (sint (snd k'))) = (nat (sint (fst k)), nat (sint (snd k)))"
    with g k have "fst k' = fst k" "snd k' = snd k"
      by (auto simp: on_grid_def intro: index_inj)
    with facts(4) show False by (cases k, cases k') simp
  qed
  show "Board' ! r ! c =
           (if r = nat (sint (fst k')) \<and> c = nat (sint (snd k')) then 1
            else if r = nat (sint (fst k)) \<and> c = nat (sint (snd k)) then 2
            else Board ! r ! c)" for r c
    by (simp add: cell_put [OF put2] cell_put [OF put1])
  from put2 have "on_grid Board1 (fst k') (snd k')" by (simp add: board_put_Inr)
  then show "on_grid Board' (fst k') (snd k')" by (simp only: on_grid_put [OF put2])
qed

lemma advance_count:
  assumes "advance boardX boardY Board k Board' k'"
  shows "count_cells P Board' + (if P (cell Board (fst k) (snd k)) then 1 else 0)
             + (if P (cell Board (fst k') (snd k')) then 1 else 0)
           = count_cells P Board + (if P 2 then 1 else 0) + (if P 1 then 1 else 0)"
proof -
  from assms obtain Board1 where
    put1: "board_put Board (fst k) (snd k) 2 = Inr Board1" and
    put2: "board_put Board1 (fst k') (snd k') 1 = Inr Board'"
    by (auto simp: advance_def)
  note eff = advance_effect [OF assms]
  let ?r = "nat (sint (fst k))" and ?c = "nat (sint (snd k))"
  let ?r' = "nat (sint (fst k'))" and ?c' = "nat (sint (snd k'))"
  from put1 have B1: "Board1 = Board[?r := (Board ! ?r)[?c := 2]]"
    and k: "?r < length Board" "?c < length (Board ! ?r)"
    by (simp_all add: board_put_Inr on_grid_def)
  from put2 have B': "Board' = Board1[?r' := (Board1 ! ?r')[?c' := 1]]"
    and k': "?r' < length Board1" "?c' < length (Board1 ! ?r')"
    by (simp_all add: board_put_Inr on_grid_def)
  have same: "Board1 ! ?r' ! ?c' = Board ! ?r' ! ?c'"
    using eff(5) by (auto simp: cell_put [OF put1])
  from count_cells_update [OF k, of P 2]
  have "count_cells P Board1 + (if P (cell Board (fst k) (snd k)) then 1 else 0)
          = count_cells P Board + (if P 2 then 1 else 0)"
    by (simp add: B1 cell_def)
  moreover from count_cells_update [OF k', of P 1]
  have "count_cells P Board' + (if P (cell Board (fst k') (snd k')) then 1 else 0)
          = count_cells P Board1 + (if P 1 then 1 else 0)"
    by (simp add: B' same cell_def)
  ultimately show ?thesis by linarith
qed

lemma count_zero_none:
  assumes "count_cells P Board = 0" "r < length Board" "c < length (Board ! r)"
  shows "\<not> P (Board ! r ! c)"
proof -
  from assms(2) have "length (filter P (Board ! r)) \<in> set (map (\<lambda>row. length (filter P row)) Board)"
    by simp
  then have "length (filter P (Board ! r)) \<le> count_cells P Board"
    unfolding count_cells_def by (rule member_le_sum_list) simp
  with assms(1) have "filter P (Board ! r) = []" by simp
  with assms(3) show ?thesis by (simp add: filter_empty_conv)
qed

section \<open>The scores and their minimum\<close>

text \<open>
  The score of a candidate: the number of moves the move generator returns for it on
  the board as it is before the move.
\<close>

definition onward_moves :: "cint \<Rightarrow> cint \<Rightarrow> board \<Rightarrow> square \<Rightarrow> nat" where
  "onward_moves boardX boardY Board p =
     (case findMovesFromSquare (fst p) (snd p) boardX boardY Board of
        Inl e \<Rightarrow> 0
      | Inr moves \<Rightarrow> length moves)"

lemma sizes_loop_Inr:
  "sizes_loop ps boardX boardY Board acc = Inr sizes \<Longrightarrow>
     sizes = acc @ map (\<lambda>p. of_nat (onward_moves boardX boardY Board p)) ps"
proof (induction ps arbitrary: acc)
  case Nil
  then show ?case by simp
next
  case (Cons p ps)
  from Cons.prems obtain moves where
    moves: "findMovesFromSquare (fst p) (snd p) boardX boardY Board = Inr moves" and
    rest: "sizes_loop ps boardX boardY Board (acc @ [of_nat (length moves)]) = Inr sizes"
    by (auto split: sum.splits)
  from moves have "onward_moves boardX boardY Board p = length moves"
    by (simp add: onward_moves_def)
  with Cons.IH [OF rest] show ?case by simp
qed

lemma findMovesFromSquare_length:
  "findMovesFromSquare x y boardX boardY Board = Inr ms \<Longrightarrow> length ms \<le> 8"
proof -
  assume "findMovesFromSquare x y boardX boardY Board = Inr ms"
  then have "ms = filter (candidate_ok boardX boardY Board) (map (shift x y) (zip dx dy))"
    by (rule findMovesFromSquare_Inr)
  then have "length ms \<le> length (map (shift x y) (zip dx dy))"
    by (simp only: length_filter_le)
  then show ?thesis by (simp add: dx_def dy_def)
qed

lemma onward_moves_le: "onward_moves boardX boardY Board p \<le> 8"
  by (auto simp: onward_moves_def findMovesFromSquare_length split: sum.splits)

lemma sint_of_nat_small: "n < 2147483648 \<Longrightarrow> sint (of_nat n :: cint) = int n"
proof -
  assume "n < 2147483648"
  then have "- (2 ^ 31) \<le> int n" "int n < 2 ^ 31" by simp_all
  then have "signed_take_bit 31 (int n) = int n" by (rule signed_take_bit_int_eq_self)
  then show ?thesis by (simp add: signed_of_nat)
qed

lemma findMinimumIndex_loop_min:
  assumes "length vec < 2147483648"
    and "0 \<le>s i" and "nat (sint i) \<le> length vec"
    and "0 \<le>s index" and "nat (sint index) < nat (sint i)"
    and "smallest = vec ! nat (sint index)"
    and "\<forall>j < nat (sint i). \<not> vec ! j <s smallest"
    and "\<forall>j < nat (sint index). smallest <s vec ! j"
  shows "(\<forall>j < length vec. \<not> vec ! j <s vec ! nat (sint (findMinimumIndex_loop vec i smallest index))) \<and>
         (\<forall>j < nat (sint (findMinimumIndex_loop vec i smallest index)).
             vec ! nat (sint (findMinimumIndex_loop vec i smallest index)) <s vec ! j)"
  using assms
proof (induction vec i smallest index rule: findMinimumIndex_loop.induct)
  case (1 vec i smallest index)
  show ?case
  proof (cases "0 \<le>s i \<and> nat (sint i) < length vec")
    case False
    with "1.prems"(2,3) have "nat (sint i) = length vec" by simp
    with "1.prems"(6,7,8) show ?thesis
      by (simp add: findMinimumIndex_loop_stop [OF False])
  next
    case True
    then have "sint i \<noteq> 2147483647" using "1.prems"(1) by auto
    then have succ: "sint (i + 1) = sint i + 1" by (rule sint_succ)
    from True have i0: "0 \<le> sint i" by (simp add: word_sle_eq)
    with succ have next_pos: "0 \<le>s i + 1" and next_nat: "nat (sint (i + 1)) = Suc (nat (sint i))"
      by (simp_all add: word_sle_eq nat_add_distrib)
    from True next_nat have next_le: "nat (sint (i + 1)) \<le> length vec" by simp
    show ?thesis
    proof (cases "vec ! nat (sint i) <s smallest")
      case less: True
      have a: "\<forall>j < nat (sint (i + 1)). \<not> vec ! j <s vec ! nat (sint i)"
      proof (intro allI impI)
        fix j assume "j < nat (sint (i + 1))"
        then have "j < nat (sint i) \<or> j = nat (sint i)" using next_nat by auto
        then show "\<not> vec ! j <s vec ! nat (sint i)"
          using "1.prems"(7) less by (auto simp: word_sless_alt)
      qed
      have b: "\<forall>j < nat (sint i). vec ! nat (sint i) <s vec ! j"
        using "1.prems"(7) less by (auto simp: word_sless_alt)
      have c: "nat (sint i) < nat (sint (i + 1))" using next_nat by simp
      from "1.IH"(1) [OF True less "1.prems"(1) next_pos next_le _ c refl a b] True
      show ?thesis by (simp add: findMinimumIndex_loop_less [OF True less])
    next
      case ge: False
      have a: "\<forall>j < nat (sint (i + 1)). \<not> vec ! j <s smallest"
      proof (intro allI impI)
        fix j assume "j < nat (sint (i + 1))"
        then have "j < nat (sint i) \<or> j = nat (sint i)" using next_nat by auto
        then show "\<not> vec ! j <s smallest" using "1.prems"(7) ge by auto
      qed
      have c: "nat (sint index) < nat (sint (i + 1))" using "1.prems"(5) next_nat by linarith
      from "1.IH"(2) [OF True ge "1.prems"(1) next_pos next_le "1.prems"(4) c "1.prems"(6) a "1.prems"(8)]
      show ?thesis by (simp add: findMinimumIndex_loop_keep [OF True ge])
    qed
  qed
qed

lemma findMinimumIndex_first_min:
  assumes "vec \<noteq> []" "length vec < 2147483648" "findMinimumIndex vec = Inr index"
  shows "(\<forall>j < length vec. \<not> vec ! j <s vec ! nat (sint index)) \<and>
         (\<forall>j < nat (sint index). vec ! nat (sint index) <s vec ! j)"
proof -
  from assms(1) have at0: "vec_at vec 0 = Inr (vec ! 0)" by (simp add: vec_at_def)
  with assms(3) have index: "index = findMinimumIndex_loop vec 1 (vec ! 0) 0"
    by (simp add: findMinimumIndex_def)
  have "(\<forall>j < length vec. \<not> vec ! j <s vec ! nat (sint (findMinimumIndex_loop vec 1 (vec ! 0) 0))) \<and>
         (\<forall>j < nat (sint (findMinimumIndex_loop vec 1 (vec ! 0) 0)).
             vec ! nat (sint (findMinimumIndex_loop vec 1 (vec ! 0) 0)) <s vec ! j)"
  proof (rule findMinimumIndex_loop_min [OF assms(2)])
    show "0 \<le>s (1::cint)" by (simp add: word_sle_eq)
    show "nat (sint (1::cint)) \<le> length vec" using assms(1) by (cases vec) simp_all
    show "0 \<le>s (0::cint)" by simp
    show "nat (sint (0::cint)) < nat (sint (1::cint))" by simp
    show "vec ! 0 = vec ! nat (sint (0::cint))" by simp
    show "\<forall>j < nat (sint (1::cint)). \<not> vec ! j <s vec ! 0" by simp
    show "\<forall>j < nat (sint (0::cint)). vec ! 0 <s vec ! j" by simp
  qed
  then show ?thesis by (simp only: index)
qed

lemma sizes_loop_calls:
  "sizes_loop ps boardX boardY Board acc = Inr sizes \<Longrightarrow> p \<in> set ps \<Longrightarrow>
     \<exists>moves. findMovesFromSquare (fst p) (snd p) boardX boardY Board = Inr moves"
  by (induction ps arbitrary: acc) (auto split: sum.splits)



section \<open>What stays true along a run\<close>

text \<open>
  Two relations between a board and a later one: cells that are 2 stay 2, and a cell that
  became 2 was 1 before. The invariant of a run collects them with "the knight's cell is
  1" and "exactly one cell is 1" for every board printed so far.
\<close>

definition keeps :: "board \<Rightarrow> board \<Rightarrow> bool" where
  "keeps X Y \<longleftrightarrow> (\<forall>r c. X ! r ! c = 2 \<longrightarrow> Y ! r ! c = 2)"

definition marks_current :: "board \<Rightarrow> board \<Rightarrow> bool" where
  "marks_current X Y \<longleftrightarrow> (\<forall>r c. Y ! r ! c = 2 \<and> X ! r ! c \<noteq> 2 \<longrightarrow> X ! r ! c = 1)"

definition tour_inv :: "board \<Rightarrow> cint \<Rightarrow> cint \<Rightarrow> cint \<Rightarrow> board list \<Rightarrow> bool" where
  "tour_inv Board knightRow knightCol movesMade out \<longleftrightarrow>
     out \<noteq> [] \<and> last out = Board \<and>
     on_grid Board knightRow knightCol \<and> cell Board knightRow knightCol = 1 \<and>
     (\<forall>X \<in> set out. count_cells (\<lambda>v. v = 1) X = 1) \<and>
     (\<forall>i j. i \<le> j \<and> j < length out \<longrightarrow> keeps (out ! i) (out ! j)) \<and>
     (\<forall>i. Suc i < length out \<longrightarrow> marks_current (out ! i) (out ! Suc i))"

lemma keeps_refl: "keeps X X"
  by (simp add: keeps_def)

lemma keeps_trans: "keeps X Y \<Longrightarrow> keeps Y Z \<Longrightarrow> keeps X Z"
  by (simp add: keeps_def)

lemma advance_keeps:
  assumes "advance boardX boardY Board k Board' k'"
  shows "keeps Board Board'"
  unfolding keeps_def
proof (intro allI impI)
  fix r c assume v: "Board ! r ! c = 2"
  from advance_effect(4) [OF assms] v
  have "\<not> (r = nat (sint (fst k')) \<and> c = nat (sint (snd k')))" by (auto simp: cell_def)
  with v show "Board' ! r ! c = 2" by (simp add: advance_effect(6) [OF assms])
qed

lemma advance_marks_current:
  assumes "advance boardX boardY Board k Board' k'" "cell Board (fst k) (snd k) = 1"
  shows "marks_current Board Board'"
  unfolding marks_current_def
proof (intro allI impI)
  fix r c assume v: "Board' ! r ! c = 2 \<and> Board ! r ! c \<noteq> 2"
  then have "r = nat (sint (fst k)) \<and> c = nat (sint (snd k))"
    by (auto simp: advance_effect(6) [OF assms(1)] split: if_splits)
  with assms(2) show "Board ! r ! c = 1" by (simp add: cell_def)
qed

lemma advance_one_current:
  assumes adv: "advance boardX boardY Board k Board' k'"
    and cur: "cell Board (fst k) (snd k) = 1"
    and one: "count_cells (\<lambda>v. v = 1) Board = 1"
  shows "count_cells (\<lambda>v. v = 1) Board' = 1"
proof -
  let ?r = "nat (sint (fst k))" and ?c = "nat (sint (snd k))"
  let ?r' = "nat (sint (fst k'))" and ?c' = "nat (sint (snd k'))"
  let ?B1 = "Board[?r := (Board ! ?r)[?c := 2]]"
  from advance_effect(1,2) [OF adv]
  have k: "?r < length Board" "?c < length (Board ! ?r)"
    and k': "?r' < length Board" "?c' < length (Board ! ?r')"
    by (simp_all add: on_grid_def)
  from count_cells_update [OF k, of "\<lambda>v. v = 1" 2] cur one
  have zero: "count_cells (\<lambda>v. v = 1) ?B1 = 0" by (simp add: cell_def)
  from k' k have k1: "?r' < length ?B1" "?c' < length (?B1 ! ?r')"
    by (simp_all add: nth_list_update)
  from count_zero_none [OF zero k1] have "?B1 ! ?r' ! ?c' \<noteq> 1" by simp
  moreover have "?B1 ! ?r' ! ?c' = Board ! ?r' ! ?c'"
    using advance_effect(5) [OF adv] k by (auto simp: nth_nested_update)
  ultimately have "cell Board (fst k') (snd k') \<noteq> 1" by (simp add: cell_def)
  with advance_count [OF adv, of "\<lambda>v. v = 1"] cur one show ?thesis by simp
qed

lemma tour_inv_step:
  assumes inv: "tour_inv Board knightRow knightCol movesMade out"
    and adv: "advance boardX boardY Board (knightRow, knightCol) Board' k'"
  shows "tour_inv Board' (fst k') (snd k') (movesMade + 1) (out @ [Board'])"
proof -
  from inv have ne: "out \<noteq> []" and last: "last out = Board"
    and cur: "cell Board knightRow knightCol = 1"
    and ones: "\<forall>X \<in> set out. count_cells (\<lambda>v. v = 1) X = 1"
    and keep: "\<forall>i j. i \<le> j \<and> j < length out \<longrightarrow> keeps (out ! i) (out ! j)"
    and marks: "\<forall>i. Suc i < length out \<longrightarrow> marks_current (out ! i) (out ! Suc i)"
    by (simp_all add: tour_inv_def)
  from ne last have lastn: "out ! (length out - 1) = Board" by (simp add: last_conv_nth)
  from ne last have "Board \<in> set out" by (metis last_in_set)
  with ones have one: "count_cells (\<lambda>v. v = 1) Board = 1" by blast
  from cur have cur': "cell Board (fst (knightRow, knightCol)) (snd (knightRow, knightCol)) = 1"
    by simp
  have kB: "keeps Board Board'" using adv by (rule advance_keeps)
  have mB: "marks_current Board Board'" using adv cur' by (rule advance_marks_current)
  have oB: "count_cells (\<lambda>v. v = 1) Board' = 1" using adv cur' one by (rule advance_one_current)
  have a: "on_grid Board' (fst k') (snd k')" by (rule advance_effect(7) [OF adv])
  have b: "cell Board' (fst k') (snd k') = 1"
    by (simp add: cell_def advance_effect(6) [OF adv])
  have c: "\<forall>X \<in> set (out @ [Board']). count_cells (\<lambda>v. v = 1) X = 1"
    using ones oB by simp
  have d: "keeps ((out @ [Board']) ! i) ((out @ [Board']) ! j)"
    if "i \<le> j \<and> j < length (out @ [Board'])" for i j
  proof (cases "j < length out")
    case True
    with that keep show ?thesis by (simp add: nth_append)
  next
    case False
    with that have j: "j = length out" by simp
    show ?thesis
    proof (cases "i = j")
      case True
      then show ?thesis by (simp add: keeps_refl)
    next
      case False
      with that j have i: "i < length out" by simp
      with ne have "i \<le> length out - 1 \<and> length out - 1 < length out" by simp
      with keep have "keeps (out ! i) (out ! (length out - 1))" by blast
      with lastn kB have "keeps (out ! i) Board'" by (auto intro: keeps_trans)
      with i j show ?thesis by (simp add: nth_append)
    qed
  qed
  have e: "marks_current ((out @ [Board']) ! i) ((out @ [Board']) ! Suc i)"
    if "Suc i < length (out @ [Board'])" for i
  proof (cases "Suc i < length out")
    case True
    with marks show ?thesis by (simp add: nth_append)
  next
    case False
    with that have i: "Suc i = length out" by simp
    then have "i = length out - 1" by simp
    with i lastn have "(out @ [Board']) ! i = Board" "(out @ [Board']) ! Suc i = Board'"
      by (simp_all add: nth_append)
    with mB show ?thesis by simp
  qed
  from a b c d e show ?thesis by (simp add: tour_inv_def)
qed

section \<open>Facts about main\<close>

text \<open>A board with exactly \<open>rows\<close> rows of \<open>cols\<close> cells.\<close>

definition grid :: "cint \<Rightarrow> cint \<Rightarrow> board \<Rightarrow> bool" where
  "grid rows cols Board \<longleftrightarrow>
     length Board = nat (sint rows) \<and> (\<forall>row \<in> set Board. length row = nat (sint cols))"

lemma count_cells_replicate:
  "count_cells P (replicate r (replicate c v)) = (if P v then r * c else 0)"
  by (simp add: count_cells_def sum_list_replicate)

lemma main_Inr:
  assumes "main (rows, cols) start = Inr (h, out)"
  obtains Board where
    "\<not> rows <s 0" "\<not> cols <s 0"
    "board_put (replicate (nat (sint rows)) (replicate (nat (sint cols)) 0))
       (fst start) (snd start) 1 = Inr Board"
    "makeMove Board rows cols (fst start) (snd start) 0 [Board] = Inr h"
    "out = map Rendered (boards_printed h) @
             [Line (if final_movesMade h = rows * cols - 1
                    then ''Tour Completed!'' else ''No More Moves!'')]"
  using assms by (auto simp: main_def split: if_splits sum.splits)

lemma board_fits_initial:
  "board_fits rows cols (replicate (nat (sint rows)) (replicate (nat (sint cols)) 0))"
  by (simp add: board_fits_def)

lemma tour_inv_initial:
  assumes "board_put (replicate (nat (sint rows)) (replicate (nat (sint cols)) 0))
             (fst start) (snd start) 1 = Inr Board"
  shows "tour_inv Board (fst start) (snd start) 0 [Board]"
proof -
  let ?B0 = "replicate (nat (sint rows)) (replicate (nat (sint cols)) (0::cint))"
  let ?r = "nat (sint (fst start))" and ?c = "nat (sint (snd start))"
  from assms have g: "on_grid ?B0 (fst start) (snd start)"
    and B: "Board = ?B0[?r := (?B0 ! ?r)[?c := 1]]"
    by (simp_all only: board_put_Inr)
  from g have r: "?r < length ?B0" and c: "?c < length (?B0 ! ?r)" by (simp_all only: on_grid_def)
  from r c have z: "?B0 ! ?r ! ?c = 0" by simp
  from count_cells_update [OF r c, of "\<lambda>v. v = 1" 1] z
  have one: "count_cells (\<lambda>v. v = 1) Board = 1"
    unfolding B [symmetric] by (simp add: count_cells_replicate)
  have "on_grid Board (fst start) (snd start)" using g by (simp only: on_grid_put [OF assms])
  moreover have "cell Board (fst start) (snd start) = 1" by (simp add: cell_def cell_put [OF assms])
  ultimately show ?thesis using one by (simp add: tour_inv_def keeps_refl)
qed

lemma tour_inv_main:
  assumes "main (rows, cols) start = Inr (h, out)"
  shows "tour_inv (final_Board h) (final_knightRow h) (final_knightCol h) (final_movesMade h)
           (boards_printed h) \<and>
         findMovesFromSquare (final_knightRow h) (final_knightCol h) rows cols (final_Board h)
           = Inr []"
proof -
  from assms obtain Board where
    put: "board_put (replicate (nat (sint rows)) (replicate (nat (sint cols)) 0))
       (fst start) (snd start) 1 = Inr Board" and
    run: "makeMove Board rows cols (fst start) (snd start) 0 [Board] = Inr h"
    by (rule main_Inr)
  from run tour_inv_initial [OF put] show ?thesis
    by (rule makeMove_invariant) (rule tour_inv_step)
qed

lemma grid_put:
  assumes "grid rows cols Board" "board_put Board x y v = Inr Board'"
  shows "grid rows cols Board'"
proof -
  from assms(2) have g: "on_grid Board x y"
    and B': "Board' = Board[nat (sint x) := (Board ! nat (sint x))[nat (sint y) := v]]"
    by (simp_all add: board_put_Inr)
  have "length row = nat (sint cols)" if "row \<in> set Board'" for row
  proof -
    from that have "row \<in> insert ((Board ! nat (sint x))[nat (sint y) := v]) (set Board)"
      unfolding B' using set_update_subset_insert by fast
    moreover have "Board ! nat (sint x) \<in> set Board" using g by (simp add: on_grid_def)
    ultimately show ?thesis using assms(1) by (auto simp: grid_def)
  qed
  with assms(1) show ?thesis by (simp add: grid_def B')
qed

lemma grid_advance:
  assumes "advance rows cols Board k Board' k'" "grid rows cols Board"
  shows "grid rows cols Board'"
proof -
  from assms(1) obtain Board1 where
    put1: "board_put Board (fst k) (snd k) 2 = Inr Board1" and
    put2: "board_put Board1 (fst k') (snd k') 1 = Inr Board'"
    by (auto simp: advance_def)
  from grid_put [OF grid_put [OF assms(2) put1] put2] show ?thesis .
qed

lemma grid_main:
  assumes "main (rows, cols) start = Inr (h, out)"
  shows "\<forall>X \<in> set (boards_printed h). grid rows cols X"
proof -
  from assms obtain Board where
    put: "board_put (replicate (nat (sint rows)) (replicate (nat (sint cols)) 0))
       (fst start) (snd start) 1 = Inr Board" and
    run: "makeMove Board rows cols (fst start) (snd start) 0 [Board] = Inr h"
    by (rule main_Inr)
  have "grid rows cols (replicate (nat (sint rows)) (replicate (nat (sint cols)) 0))"
    by (simp add: grid_def)
  from grid_put [OF this put] have init: "grid rows cols Board \<and> (\<forall>X \<in> set [Board]. grid rows cols X)"
    by simp
  have "(grid rows cols (final_Board h) \<and> (\<forall>X \<in> set (boards_printed h). grid rows cols X)) \<and>
         findMovesFromSquare (final_knightRow h) (final_knightCol h) rows cols (final_Board h)
           = Inr []"
    using run init
  proof (rule makeMove_invariant
      [where I = "\<lambda>B kr kc m out. grid rows cols B \<and> (\<forall>X \<in> set out. grid rows cols X)"])
    fix B kr kc m out B' k'
    assume "grid rows cols B \<and> (\<forall>X \<in> set out. grid rows cols X)"
      and "advance rows cols B (kr, kc) B' k'"
    then show "grid rows cols B' \<and> (\<forall>X \<in> set (out @ [B']). grid rows cols X)"
      by (auto intro: grid_advance)
  qed
  then show ?thesis by blast
qed

lemma sint_of_nat_le: "sint (of_nat n :: cint) \<le> int n"
proof (cases "n < 2147483648")
  case True
  then show ?thesis by (simp add: sint_of_nat_small)
next
  case False
  have "sint (of_nat n :: cint) < 2 ^ 31" using sint_lt [of "of_nat n :: cint"] by simp
  with False show ?thesis by simp
qed

lemma unvisited_after_initial:
  assumes "board_put (replicate r (replicate c 0)) x y 1 = Inr Board"
  shows "Suc (unvisited_after Board x y) = r * c"
proof -
  let ?B0 = "replicate r (replicate c (0::cint))"
  let ?r = "nat (sint x)" and ?c = "nat (sint y)"
  from assms have g: "on_grid ?B0 x y" and B: "Board = ?B0[?r := (?B0 ! ?r)[?c := 1]]"
    by (simp_all only: board_put_Inr)
  from g have r: "?r < length ?B0" and c: "?c < length (?B0 ! ?r)" by (simp_all only: on_grid_def)
  have "Board[?r := (Board ! ?r)[?c := 2]] = ?B0[?r := (?B0 ! ?r)[?c := 2]]"
    unfolding B using r by simp
  then have "unvisited_after Board x y = count_cells (\<lambda>v. v \<noteq> 2) (?B0[?r := (?B0 ! ?r)[?c := 2]])"
    by (simp only: unvisited_after_def)
  moreover from r c have "?B0 ! ?r ! ?c = 0" by simp
  with count_cells_update [OF r c, of "\<lambda>v. v \<noteq> 2" 2]
  have "count_cells (\<lambda>v. v \<noteq> 2) (?B0[?r := (?B0 ! ?r)[?c := 2]]) + 1 = r * c"
    by (simp add: count_cells_replicate)
  ultimately show ?thesis by simp
qed

lemma main_total:
  assumes "isOnBoard (fst start) (snd start) rows cols"
  shows "\<exists>h out Board.
           main (rows, cols) start = Inr (h, out) \<and>
           board_put (replicate (nat (sint rows)) (replicate (nat (sint cols)) 0))
             (fst start) (snd start) 1 = Inr Board \<and>
           makeMove Board rows cols (fst start) (snd start) 0 [Board] = Inr h"
proof -
  let ?B0 = "replicate (nat (sint rows)) (replicate (nat (sint cols)) (0::cint))"
  from assms have pos: "0 < sint rows" "0 < sint cols"
    by (simp_all add: isOnBoard_def word_sle_eq word_sless_alt)
  then have nonneg: "\<not> rows <s 0" "\<not> cols <s 0" by (simp_all add: word_sless_alt)
  have fits0: "board_fits rows cols ?B0" by (rule board_fits_initial)
  from isOnBoard_on_grid [OF fits0 assms] obtain Board where
    put: "board_put ?B0 (fst start) (snd start) 1 = Inr Board"
    by (simp add: board_put_Inr)
  from board_fits_put [OF fits0 put] have fits: "board_fits rows cols Board" .
  from isOnBoard_on_grid [OF fits0 assms] have g: "on_grid Board (fst start) (snd start)"
    by (simp only: on_grid_put [OF put])
  from makeMove_total [OF fits g] obtain h where
    run: "makeMove Board rows cols (fst start) (snd start) 0 [Board] = Inr h" by blast
  from nonneg put run have "\<exists>out. main (rows, cols) start = Inr (h, out)"
    by (simp add: main_def)
  with put run show ?thesis by blast
qed

lemma main_start_on_board:
  assumes "main (rows, cols) start = Inr (h, out)"
  shows "isOnBoard (fst start) (snd start) rows cols"
proof -
  from assms obtain Board where
    "board_put (replicate (nat (sint rows)) (replicate (nat (sint cols)) 0))
       (fst start) (snd start) 1 = Inr Board"
    by (rule main_Inr)
  then have g: "on_grid (replicate (nat (sint rows)) (replicate (nat (sint cols)) 0))
                 (fst start) (snd start)"
    by (simp only: board_put_Inr)
  then have x: "0 \<le> sint (fst start)" "nat (sint (fst start)) < nat (sint rows)"
    by (simp_all add: on_grid_def word_sle_eq)
  then have "replicate (nat (sint rows)) (replicate (nat (sint cols)) (0::cint)) ! nat (sint (fst start))
      = replicate (nat (sint cols)) 0"
    by simp
  with g have y: "0 \<le> sint (snd start)" "nat (sint (snd start)) < nat (sint cols)"
    by (simp_all add: on_grid_def word_sle_eq)
  from x y show ?thesis by (simp add: isOnBoard_def word_sle_eq word_sless_alt)
qed

lemma sint_times_minus_one:
  assumes "0 < sint (a::cint) * sint (b::cint)" "sint a * sint b \<le> 2147483647"
  shows "sint (a * b - 1) = sint a * sint b - 1"
proof -
  from assms have "- (2 ^ 31) \<le> sint a * sint b" "sint a * sint b < 2 ^ 31" by simp_all
  then have p: "signed_take_bit 31 (sint a * sint b) = sint a * sint b"
    by (rule signed_take_bit_int_eq_self)
  from assms have "- (2 ^ 31) \<le> sint a * sint b - 1" "sint a * sint b - 1 < 2 ^ 31" by simp_all
  then have q: "signed_take_bit 31 (sint a * sint b - 1) = sint a * sint b - 1"
    by (rule signed_take_bit_int_eq_self)
  show ?thesis by (simp add: sint_word_ariths p q)
qed

lemma main_moves:
  assumes "main (rows, cols) start = Inr (h, out)"
  shows "0 < sint rows" and "0 < sint cols"
    and "final_movesMade h = of_nat (length (boards_printed h) - 1)"
    and "boards_printed h \<noteq> []"
    and "int (length (boards_printed h)) \<le> sint rows * sint cols"
proof -
  from main_start_on_board [OF assms] show pos: "0 < sint rows" "0 < sint cols"
    by (simp_all add: isOnBoard_def word_sle_eq word_sless_alt)
  from assms obtain Board where
    put: "board_put (replicate (nat (sint rows)) (replicate (nat (sint cols)) 0))
             (fst start) (snd start) 1 = Inr Board" and
    run: "makeMove Board rows cols (fst start) (snd start) 0 [Board] = Inr h"
    by (rule main_Inr)
  from makeMove_trace [OF run] obtain tr where
    tr: "boards_printed h = [Board] @ tr" "final_movesMade h = 0 + of_nat (length tr)"
      "length tr \<le> unvisited_after Board (fst start) (snd start)"
    by blast
  from tr(1,2) show "final_movesMade h = of_nat (length (boards_printed h) - 1)" by simp
  from tr(1) show "boards_printed h \<noteq> []" by simp
  from unvisited_after_initial [OF put] tr(3)
  have "Suc (length tr) \<le> nat (sint rows) * nat (sint cols)" by simp
  with tr(1) have "length (boards_printed h) \<le> nat (sint rows) * nat (sint cols)" by simp
  moreover have "int (nat (sint rows) * nat (sint cols)) = sint rows * sint cols"
    using pos by simp
  ultimately show "int (length (boards_printed h)) \<le> sint rows * sint cols" by linarith
qed

section \<open>Two runs, evaluated\<close>


definition moves_3x3 :: "square list" where
  "moves_3x3 = [(2, 1), (1, 2)]"

definition tour_3x3 :: halted where
  "tour_3x3 =
     \<lparr>final_Board = [[2, 2, 2], [2, 0, 1], [2, 2, 2]], final_knightRow = 1,
      final_knightCol = 2, final_movesMade = 7,
      boards_printed =
        [[[1, 0, 0], [0, 0, 0], [0, 0, 0]],
         [[2, 0, 0], [0, 0, 0], [0, 1, 0]],
         [[2, 0, 1], [0, 0, 0], [0, 2, 0]],
         [[2, 0, 2], [1, 0, 0], [0, 2, 0]],
         [[2, 0, 2], [2, 0, 0], [0, 2, 1]],
         [[2, 1, 2], [2, 0, 0], [0, 2, 2]],
         [[2, 2, 2], [2, 0, 0], [1, 2, 2]],
         [[2, 2, 2], [2, 0, 1], [2, 2, 2]]]\<rparr>"

definition printed_3x3 :: "printed list" where
  "printed_3x3 = map Rendered (boards_printed tour_3x3) @ [Line ''No More Moves!'']"


lemma main_3x3: "main (3, 3) (0, 0) = Inr (tour_3x3, printed_3x3)"
  by code_simp

lemma start_on_3x3: "isOnBoard (fst (0, 0)) (snd (0, 0)) 3 3"
  by (simp add: isOnBoard_def word_sle_eq word_sless_alt)

definition start_3x4 :: board where
  "start_3x4 = [[1, 0, 0, 0], [0, 0, 0, 0], [0, 0, 0, 0]]"

definition tour_3x4 :: halted where
  "tour_3x4 =
     \<lparr>final_Board = [[2, 2, 2, 2], [1, 2, 2, 2], [2, 2, 2, 2]], final_knightRow = 1,
      final_knightCol = 0, final_movesMade = 11,
      boards_printed =
        [[[1, 0, 0, 0], [0, 0, 0, 0], [0, 0, 0, 0]],
         [[2, 0, 0, 0], [0, 0, 1, 0], [0, 0, 0, 0]],
         [[2, 0, 0, 0], [0, 0, 2, 0], [1, 0, 0, 0]],
         [[2, 1, 0, 0], [0, 0, 2, 0], [2, 0, 0, 0]],
         [[2, 2, 0, 0], [0, 0, 2, 1], [2, 0, 0, 0]],
         [[2, 2, 0, 0], [0, 0, 2, 2], [2, 1, 0, 0]],
         [[2, 2, 1, 0], [0, 0, 2, 2], [2, 2, 0, 0]],
         [[2, 2, 2, 0], [0, 0, 2, 2], [2, 2, 0, 1]],
         [[2, 2, 2, 0], [0, 1, 2, 2], [2, 2, 0, 2]],
         [[2, 2, 2, 1], [0, 2, 2, 2], [2, 2, 0, 2]],
         [[2, 2, 2, 2], [0, 2, 2, 2], [2, 2, 1, 2]],
         [[2, 2, 2, 2], [1, 2, 2, 2], [2, 2, 2, 2]]]\<rparr>"

definition printed_3x4 :: "printed list" where
  "printed_3x4 = map Rendered (boards_printed tour_3x4) @ [Line ''Tour Completed!'']"

lemma candidates_3x4: "findMovesFromSquare 0 0 3 4 start_3x4 = Inr moves_3x3"
  by code_simp

lemma main_3x4: "main (3, 4) (0, 0) = Inr (tour_3x4, printed_3x4)"
  by code_simp

lemma start_on_3x4: "isOnBoard (fst (0, 0)) (snd (0, 0)) 3 4"
  by (simp add: isOnBoard_def word_sle_eq word_sless_alt)


section \<open>The claims\<close>

subsection \<open>C1: the move chosen\<close>

text \<open>
  Claim C1. Take any call of \<^verbatim>\<open>makeMove\<close> on a board that covers the bounds, with
  the knight on the board and a non-empty candidate list \<open>array\<close>. The call does not
  fail, and the square it moves to is \<open>array ! i\<close> for the index \<open>i\<close> with these two
  properties: its score, the number of moves the move generator returns for it on the
  board before the move, is at most the score of every candidate, and strictly below
  the score of every candidate before it in \<open>array\<close>, which is in the offset order of
  the move generator. That square is marked 1 on the board printed next, and the
  recursive call is made on it.
\<close>

theorem makeMove_chooses_first_minimum:
  assumes fits: "board_fits boardX boardY Board"
    and knight: "on_grid Board knightRow knightCol"
    and array: "findMovesFromSquare knightRow knightCol boardX boardY Board = Inr array"
    and nonempty: "array \<noteq> []"
  shows "\<exists>i < length array.
           (\<forall>j < length array.
              (\<exists>moves. findMovesFromSquare (fst (array ! j)) (snd (array ! j)) boardX boardY Board
                         = Inr moves) \<and>
              onward_moves boardX boardY Board (array ! i)
                \<le> onward_moves boardX boardY Board (array ! j)) \<and>
           (\<forall>j < i. onward_moves boardX boardY Board (array ! i)
                      < onward_moves boardX boardY Board (array ! j)) \<and>
           (\<exists>Board1 Board2 h.
              board_put Board knightRow knightCol 2 = Inr Board1 \<and>
              board_put Board1 (fst (array ! i)) (snd (array ! i)) 1 = Inr Board2 \<and>
              makeMove Board boardX boardY knightRow knightCol movesMade out
                = makeMove Board2 boardX boardY (fst (array ! i)) (snd (array ! i))
                    (movesMade + 1) (out @ [Board2]) \<and>
              makeMove Board boardX boardY knightRow knightCol movesMade out = Inr h \<and>
              boards_printed h ! length out = Board2)"
proof -
  from makeMove_total [OF fits knight] obtain h where
    run: "makeMove Board boardX boardY knightRow knightCol movesMade out = Inr h" by blast
  from run show ?thesis
  proof (cases rule: makeMove_Inr_cases)
    case halt
    with array nonempty show ?thesis by simp
  next
    case (move Board' k')
    from move(1) array obtain sizes index Board1 where
      sizes: "sizes_loop array boardX boardY Board [] = Inr sizes" and
      index: "findMinimumIndex sizes = Inr index" and
      k': "vec_at array index = Inr k'" and
      put1: "board_put Board knightRow knightCol 2 = Inr Board1" and
      put2: "board_put Board1 (fst k') (snd k') 1 = Inr Board'"
      by (auto simp: advance_def)
    let ?i = "nat (sint index)"
    let ?on = "onward_moves boardX boardY Board"
    from k' have i: "?i < length array" and ki: "k' = array ! ?i" by (simp_all add: vec_at_Inr)
    from sizes_loop_Inr [OF sizes] have sz: "sizes = map (\<lambda>p. of_nat (?on p)) array" by simp
    then have len: "length sizes = length array" by simp
    have "length array \<le> 8" using array by (rule findMovesFromSquare_length)
    with len nonempty have ne: "sizes \<noteq> []" and short: "length sizes < 2147483648" by auto
    have val: "sint (sizes ! j) = int (?on (array ! j))" if "j < length array" for j
    proof -
      have "?on (array ! j) < 2147483648" using onward_moves_le [of boardX boardY Board "array ! j"]
        by simp
      then show ?thesis using that by (simp add: sz sint_of_nat_small)
    qed
    note fm = findMinimumIndex_first_min [OF ne short index]
    have 1: "\<forall>j < length array.
              (\<exists>moves. findMovesFromSquare (fst (array ! j)) (snd (array ! j)) boardX boardY Board
                         = Inr moves) \<and> ?on (array ! ?i) \<le> ?on (array ! j)"
    proof (intro allI impI conjI)
      fix j assume j: "j < length array"
      then have "array ! j \<in> set array" by simp
      from sizes_loop_calls [OF sizes this]
      show "\<exists>moves. findMovesFromSquare (fst (array ! j)) (snd (array ! j)) boardX boardY Board
                         = Inr moves" .
      from fm j len have "\<not> sizes ! j <s sizes ! ?i" by simp
      then show "?on (array ! ?i) \<le> ?on (array ! j)"
        using val [OF j] val [OF i] by (simp add: word_sless_alt)
    qed
    have 2: "\<forall>j < ?i. ?on (array ! ?i) < ?on (array ! j)"
    proof (intro allI impI)
      fix j assume j: "j < ?i"
      with i have j': "j < length array" by simp
      from fm j have "sizes ! ?i <s sizes ! j" by simp
      then show "?on (array ! ?i) < ?on (array ! j)"
        using val [OF j'] val [OF i] by (simp add: word_sless_alt)
    qed
    from makeMove_trace [OF move(2)] obtain tr where "boards_printed h = (out @ [Board']) @ tr"
      by blast
    then have 3: "boards_printed h ! length out = Board'" by (simp add: nth_append)
    from put1 put2 makeMove_advances [OF move(1), of movesMade out] run 3
    have 4: "\<exists>Board1 Board2 h.
              board_put Board knightRow knightCol 2 = Inr Board1 \<and>
              board_put Board1 (fst (array ! ?i)) (snd (array ! ?i)) 1 = Inr Board2 \<and>
              makeMove Board boardX boardY knightRow knightCol movesMade out
                = makeMove Board2 boardX boardY (fst (array ! ?i)) (snd (array ! ?i))
                    (movesMade + 1) (out @ [Board2]) \<and>
              makeMove Board boardX boardY knightRow knightCol movesMade out = Inr h \<and>
              boards_printed h ! length out = Board2"
      unfolding ki by blast
    from i 1 2 4 show ?thesis by blast
  qed
qed

theorem makeMove_chooses_first_minimum_witness:
  "board_fits 3 4 start_3x4 \<and> on_grid start_3x4 0 0 \<and>
   findMovesFromSquare 0 0 3 4 start_3x4 = Inr moves_3x3 \<and>
   moves_3x3 \<noteq> [] \<and>
   onward_moves 3 4 start_3x4 (moves_3x3 ! 0) = 3 \<and>
   onward_moves 3 4 start_3x4 (moves_3x3 ! 1) = 2 \<and>
   moves_3x3 ! 1 = (1, 2) \<and>
   (\<exists>h. makeMove start_3x4 3 4 0 0 0 [start_3x4] = Inr h \<and>
        makeMove start_3x4 3 4 0 0 0 [start_3x4] =
          makeMove [[2, 0, 0, 0], [0, 0, 1, 0], [0, 0, 0, 0]] 3 4 1 2 (0 + 1)
            ([start_3x4] @ [[[2, 0, 0, 0], [0, 0, 1, 0], [0, 0, 0, 0]]]) \<and>
        boards_printed h ! length [start_3x4] = [[2, 0, 0, 0], [0, 0, 1, 0], [0, 0, 0, 0]])"
proof -
  have fits: "board_fits 3 4 start_3x4" by (simp add: board_fits_def start_3x4_def)
  have knight: "on_grid start_3x4 0 0" by (simp add: on_grid_def start_3x4_def)
  have ne: "moves_3x3 \<noteq> []" by (simp add: moves_3x3_def)
  have e0: "onward_moves 3 4 start_3x4 (moves_3x3 ! 0) = 3" by code_simp
  have e1: "onward_moves 3 4 start_3x4 (moves_3x3 ! 1) = 2" by code_simp
  have m1: "moves_3x3 ! 1 = (1, 2)" by (simp add: moves_3x3_def)
  have len: "length moves_3x3 = 2" by (simp add: moves_3x3_def)
  have p1: "board_put start_3x4 0 0 2 = Inr [[2, 0, 0, 0], [0, 0, 0, 0], [0, 0, 0, 0]]"
    by code_simp
  have p2: "board_put [[2, 0, 0, 0], [0, 0, 0, 0], [0, 0, 0, 0]] 1 2 1
              = Inr [[2, 0, 0, 0], [0, 0, 1, 0], [0, 0, 0, 0]]"
    by code_simp
  from makeMove_chooses_first_minimum [OF fits knight candidates_3x4 ne, of 0 "[start_3x4]"]
  obtain i Board1 Board2 h where i: "i < length moves_3x3"
    and le: "\<forall>j < length moves_3x3.
               onward_moves 3 4 start_3x4 (moves_3x3 ! i) \<le> onward_moves 3 4 start_3x4 (moves_3x3 ! j)"
    and put1: "board_put start_3x4 0 0 2 = Inr Board1"
    and put2: "board_put Board1 (fst (moves_3x3 ! i)) (snd (moves_3x3 ! i)) 1 = Inr Board2"
    and step: "makeMove start_3x4 3 4 0 0 0 [start_3x4]
                = makeMove Board2 3 4 (fst (moves_3x3 ! i)) (snd (moves_3x3 ! i))
                    (0 + 1) ([start_3x4] @ [Board2])"
    and run: "makeMove start_3x4 3 4 0 0 0 [start_3x4] = Inr h"
    and pr: "boards_printed h ! length [start_3x4] = Board2"
    by blast
  from le len have "onward_moves 3 4 start_3x4 (moves_3x3 ! i) \<le> onward_moves 3 4 start_3x4 (moves_3x3 ! 1)"
    by simp
  with e1 have le2: "onward_moves 3 4 start_3x4 (moves_3x3 ! i) \<le> 2" by simp
  have "i \<noteq> 0"
  proof
    assume "i = 0"
    with le2 e0 show False by simp
  qed
  with i len have i1: "i = 1" by simp
  from put1 p1 have B1: "Board1 = [[2, 0, 0, 0], [0, 0, 0, 0], [0, 0, 0, 0]]" by simp
  from put2 have "board_put Board1 (fst (moves_3x3 ! 1)) (snd (moves_3x3 ! 1)) 1 = Inr Board2"
    by (simp only: i1)
  then have "board_put [[2, 0, 0, 0], [0, 0, 0, 0], [0, 0, 0, 0]] 1 2 1 = Inr Board2"
    by (simp only: m1 B1 fst_conv snd_conv)
  with p2 have B2: "Board2 = [[2, 0, 0, 0], [0, 0, 1, 0], [0, 0, 0, 0]]" by simp
  from step run pr have "\<exists>h. makeMove start_3x4 3 4 0 0 0 [start_3x4] = Inr h \<and>
        makeMove start_3x4 3 4 0 0 0 [start_3x4] =
          makeMove [[2, 0, 0, 0], [0, 0, 1, 0], [0, 0, 0, 0]] 3 4 1 2 (0 + 1)
            ([start_3x4] @ [[[2, 0, 0, 0], [0, 0, 1, 0], [0, 0, 0, 0]]]) \<and>
        boards_printed h ! length [start_3x4] = [[2, 0, 0, 0], [0, 0, 1, 0], [0, 0, 0, 0]]"
    unfolding B2 i1 m1 by (intro exI [of _ h]) simp
  with fits knight candidates_3x4 ne e0 e1 m1 show ?thesis by (intro conjI)
qed

subsection \<open>C2: the run ends within rows * cols - 1 moves\<close>

text \<open>
  Claim C2. For a start square on a board of \<open>rows\<close> x \<open>cols\<close> cells (which needs
  \<open>rows\<close> and \<open>cols\<close> to be at least 1), the run returns: \<^verbatim>\<open>makeMove\<close> is a total
  function and no access fails. The move count it leaves is at most
  \<open>rows * cols - 1\<close>; it is the number of boards printed after the first, and at most
  \<open>rows * cols\<close> boards are printed.
\<close>

theorem tour_terminates_within_bound:
  assumes "isOnBoard (fst start) (snd start) rows cols"
  shows "\<exists>h out. main (rows, cols) start = Inr (h, out) \<and>
           sint (final_movesMade h) \<le> sint rows * sint cols - 1 \<and>
           final_movesMade h = of_nat (length (boards_printed h) - 1) \<and>
           length (boards_printed h) \<le> nat (sint rows * sint cols)"
proof -
  from main_total [OF assms] obtain h out where
    main: "main (rows, cols) start = Inr (h, out)" by blast
  note m = main_moves [OF main]
  from m(4) have "int (length (boards_printed h) - 1) = int (length (boards_printed h)) - 1"
    by (cases "boards_printed h") simp_all
  with m(5) have "int (length (boards_printed h) - 1) \<le> sint rows * sint cols - 1" by simp
  with sint_of_nat_le [of "length (boards_printed h) - 1"] m(3)
  have 1: "sint (final_movesMade h) \<le> sint rows * sint cols - 1" by simp
  from m(5) have 3: "length (boards_printed h) \<le> nat (sint rows * sint cols)" by linarith
  from main 1 m(3) 3 show ?thesis by blast
qed

theorem tour_terminates_within_bound_witness:
  "isOnBoard (fst (0, 0)) (snd (0, 0)) 3 3 \<and>
   main (3, 3) (0, 0) = Inr (tour_3x3, printed_3x3) \<and>
   sint (final_movesMade tour_3x3) \<le> sint (3::cint) * sint (3::cint) - 1 \<and>
   final_movesMade tour_3x3 = of_nat (length (boards_printed tour_3x3) - 1) \<and>
   length (boards_printed tour_3x3) \<le> nat (sint (3::cint) * sint (3::cint))"
proof -
  from tour_terminates_within_bound [OF start_on_3x3] obtain h out where
    m: "main (3, 3) (0, 0) = Inr (h, out)" and
    b: "sint (final_movesMade h) \<le> sint (3::cint) * sint (3::cint) - 1"
      "final_movesMade h = of_nat (length (boards_printed h) - 1)"
      "length (boards_printed h) \<le> nat (sint (3::cint) * sint (3::cint))"
    by blast
  from m [symmetric] main_3x3 have "(Inr (h, out) :: error + halted \<times> printed list) = Inr (tour_3x3, printed_3x3)"
    by (rule trans)
  then have "h = tour_3x3" by simp
  with b start_on_3x3 main_3x3 show ?thesis by simp
qed

subsection \<open>C3: the move generator stays on the board\<close>

text \<open>
  Claim C3. For any source position, bounds and board: every position
  \<^verbatim>\<open>findMovesFromSquare\<close> returns has its row in \<open>[0, boardX)\<close> and its column in
  \<open>[0, boardY)\<close>, is a cell of the board, and that cell is not 2 (visited). Whenever
  the board is at least as large as the bounds, the call returns a list and reads
  nothing out of range; the empty list is such a result, as on the 1 x 1 board.
\<close>

theorem findMovesFromSquare_on_board_unvisited:
  "(findMovesFromSquare x y boardX boardY Board = Inr ms \<longrightarrow>
      (\<forall>p \<in> set ms.
         0 \<le> sint (fst p) \<and> sint (fst p) < sint boardX \<and>
         0 \<le> sint (snd p) \<and> sint (snd p) < sint boardY \<and>
         on_grid Board (fst p) (snd p) \<and> cell Board (fst p) (snd p) \<noteq> 2)) \<and>
   (board_fits boardX boardY Board \<longrightarrow>
      (\<exists>ms. findMovesFromSquare x y boardX boardY Board = Inr ms)) \<and>
   findMovesFromSquare 0 0 1 1 [[1]] = Inr []"
proof (intro conjI impI ballI)
  fix p
  assume ms: "findMovesFromSquare x y boardX boardY Board = Inr ms" and p: "p \<in> set ms"
  from candidate_facts(1) [OF ms p]
  show "0 \<le> sint (fst p)" "sint (fst p) < sint boardX" "0 \<le> sint (snd p)" "sint (snd p) < sint boardY"
    by (simp_all add: isOnBoard_def word_sle_eq word_sless_alt)
  from candidate_facts(2,3) [OF ms p]
  show "on_grid Board (fst p) (snd p)" "cell Board (fst p) (snd p) \<noteq> 2" .
next
  assume "board_fits boardX boardY Board"
  then show "\<exists>ms. findMovesFromSquare x y boardX boardY Board = Inr ms"
    by (rule findMovesFromSquare_total)
next
  show "findMovesFromSquare 0 0 1 1 [[1]] = Inr []" by code_simp
qed

theorem findMovesFromSquare_on_board_unvisited_witness:
  "findMovesFromSquare 0 0 3 3 [[1, 0, 0], [0, 0, 0], [0, 0, 0]] = Inr [(2, 1), (1, 2)] \<and>
   board_fits 3 3 [[1, 0, 0], [0, 0, 0], [0, 0, 0]] \<and>
   list_all (\<lambda>p. 0 \<le> sint (fst p) \<and> sint (fst p) < sint (3::cint) \<and>
                  0 \<le> sint (snd p) \<and> sint (snd p) < sint (3::cint) \<and>
                  on_grid [[1, 0, 0], [0, 0, 0], [0, 0, 0]] (fst p) (snd p) \<and>
                  cell [[1, 0, 0], [0, 0, 0], [0, 0, 0]] (fst p) (snd p) \<noteq> 2)
            [(2, 1), (1, 2)] \<and>
   findMovesFromSquare 2 1 3 3 [[1, 0, 0], [0, 0, 0], [0, 0, 0]] \<noteq> Inl OutOfRange"
proof -
  have a: "findMovesFromSquare 0 0 3 3 [[1, 0, 0], [0, 0, 0], [0, 0, 0]] = Inr [(2, 1), (1, 2)]"
    by code_simp
  have b: "board_fits 3 3 [[1, 0, 0], [0, 0, 0], [0, 0, 0]]"
    by (simp add: board_fits_def)
  from findMovesFromSquare_on_board_unvisited
         [of 0 0 3 3 "[[1, 0, 0], [0, 0, 0], [0, 0, 0]]" "[(2, 1), (1, 2)]"] a
  have c: "list_all (\<lambda>p. 0 \<le> sint (fst p) \<and> sint (fst p) < sint (3::cint) \<and>
                  0 \<le> sint (snd p) \<and> sint (snd p) < sint (3::cint) \<and>
                  on_grid [[1, 0, 0], [0, 0, 0], [0, 0, 0]] (fst p) (snd p) \<and>
                  cell [[1, 0, 0], [0, 0, 0], [0, 0, 0]] (fst p) (snd p) \<noteq> 2)
            [(2, 1), (1, 2)]"
    by simp
  from findMovesFromSquare_on_board_unvisited
         [of 2 1 3 3 "[[1, 0, 0], [0, 0, 0], [0, 0, 0]]"] b
  have d: "findMovesFromSquare 2 1 3 3 [[1, 0, 0], [0, 0, 0], [0, 0, 0]] \<noteq> Inl OutOfRange"
    by auto
  from a b c d show ?thesis by blast
qed

subsection \<open>C4: one current cell, visited cells stay visited\<close>

text \<open>
  Claim C4. In a run of \<^verbatim>\<open>main\<close>, every board printed (the first shows the start
  square, each later one the state after a move) is a \<open>rows\<close> x \<open>cols\<close> grid with
  exactly one cell equal to 1. A cell that is 2 on a printed board is 2 on every later
  one, and a cell that turns 2 from one board to the next was 1 before: only the
  knight's own cell is ever marked visited, so no cell is marked twice.
\<close>

theorem one_current_visited_stays:
  assumes "main (rows, cols) start = Inr (h, out)"
  shows "(\<forall>X \<in> set (boards_printed h).
            length X = nat (sint rows) \<and> (\<forall>row \<in> set X. length row = nat (sint cols)) \<and>
            count_cells (\<lambda>v. v = 1) X = 1) \<and>
         (\<forall>i j r c. i \<le> j \<and> j < length (boards_printed h) \<and> boards_printed h ! i ! r ! c = 2
            \<longrightarrow> boards_printed h ! j ! r ! c = 2) \<and>
         (\<forall>i r c. Suc i < length (boards_printed h) \<and>
                   boards_printed h ! Suc i ! r ! c = 2 \<and> boards_printed h ! i ! r ! c \<noteq> 2
            \<longrightarrow> boards_printed h ! i ! r ! c = 1)"
proof -
  from tour_inv_main [OF assms]
  have ones: "\<forall>X \<in> set (boards_printed h). count_cells (\<lambda>v. v = 1) X = 1"
    and keep: "\<forall>i j. i \<le> j \<and> j < length (boards_printed h)
                 \<longrightarrow> keeps (boards_printed h ! i) (boards_printed h ! j)"
    and marks: "\<forall>i. Suc i < length (boards_printed h)
                 \<longrightarrow> marks_current (boards_printed h ! i) (boards_printed h ! Suc i)"
    by (simp_all add: tour_inv_def)
  from grid_main [OF assms] ones
  have 1: "\<forall>X \<in> set (boards_printed h).
            length X = nat (sint rows) \<and> (\<forall>row \<in> set X. length row = nat (sint cols)) \<and>
            count_cells (\<lambda>v. v = 1) X = 1"
    by (simp add: grid_def)
  from keep have 2: "\<forall>i j r c. i \<le> j \<and> j < length (boards_printed h) \<and>
      boards_printed h ! i ! r ! c = 2 \<longrightarrow> boards_printed h ! j ! r ! c = 2"
    unfolding keeps_def by blast
  from marks have 3: "\<forall>i r c. Suc i < length (boards_printed h) \<and>
                   boards_printed h ! Suc i ! r ! c = 2 \<and> boards_printed h ! i ! r ! c \<noteq> 2
            \<longrightarrow> boards_printed h ! i ! r ! c = 1"
    unfolding marks_current_def by blast
  from 1 2 3 show ?thesis by (intro conjI)
qed

theorem one_current_visited_stays_witness:
  "main (3, 3) (0, 0) = Inr (tour_3x3, printed_3x3) \<and>
   list_all (\<lambda>X. length X = nat (sint (3::cint)) \<and> list_all (\<lambda>row. length row = nat (sint (3::cint))) X \<and>
                  count_cells (\<lambda>v. v = 1) X = 1) (boards_printed tour_3x3) \<and>
   boards_printed tour_3x3 ! 1 ! 0 ! 0 = 2 \<and>
   boards_printed tour_3x3 ! 7 ! 0 ! 0 = 2 \<and>
   boards_printed tour_3x3 ! 0 ! 0 ! 0 = 1"
proof -
  note t = one_current_visited_stays [OF main_3x3]
  from t have a: "list_all (\<lambda>X. length X = nat (sint (3::cint)) \<and>
                  list_all (\<lambda>row. length row = nat (sint (3::cint))) X \<and>
                  count_cells (\<lambda>v. v = 1) X = 1) (boards_printed tour_3x3)"
    by (simp only: list_all_iff) blast
  have len: "Suc 0 < length (boards_printed tour_3x3)" "1 \<le> (7::nat) \<and> 7 < length (boards_printed tour_3x3)"
    by (simp_all add: tour_3x3_def)
  have v: "boards_printed tour_3x3 ! 1 ! 0 ! 0 = 2" "boards_printed tour_3x3 ! 0 ! 0 ! 0 \<noteq> 2"
    by (simp_all add: tour_3x3_def)
  from t len(2) v(1) have b: "boards_printed tour_3x3 ! 7 ! 0 ! 0 = 2" by blast
  from t len(1) v have c: "boards_printed tour_3x3 ! 0 ! 0 ! 0 = 1" by (metis One_nat_def)
  from main_3x3 a v(1) b c show ?thesis by (intro conjI)
qed

subsection \<open>C5: the message after the run\<close>

text \<open>
  Claim C5. For a start square on the board, \<^verbatim>\<open>main\<close> returns, and what it prints is
  the boards followed by exactly one line. That line is "Tour Completed!" when the
  move count equals \<open>rows * cols - 1\<close> (in \<^verbatim>\<open>int\<close> arithmetic, as line 195 computes
  it) and "No More Moves!" otherwise. Whenever \<open>rows * cols\<close> fits an \<^verbatim>\<open>int\<close>, the
  count is the number of moves made, the test of line 195 is the equation between
  integers, and the tour is reported complete exactly when \<open>rows * cols\<close> boards were
  printed.
\<close>

theorem exit_message:
  assumes "isOnBoard (fst start) (snd start) rows cols"
  shows "\<exists>h out. main (rows, cols) start = Inr (h, out) \<and>
           butlast out = map Rendered (boards_printed h) \<and>
           (last out = Line ''Tour Completed!'' \<or> last out = Line ''No More Moves!'') \<and>
           (last out = Line ''Tour Completed!'' \<longleftrightarrow> final_movesMade h = rows * cols - 1) \<and>
           (last out = Line ''No More Moves!'' \<longleftrightarrow> final_movesMade h \<noteq> rows * cols - 1) \<and>
           length (filter (\<lambda>x. \<exists>s. x = Line s) out) = 1 \<and>
           (sint rows * sint cols \<le> 2147483647 \<longrightarrow>
              sint (final_movesMade h) = int (length (boards_printed h)) - 1 \<and>
              (last out = Line ''Tour Completed!'' \<longleftrightarrow>
                 sint (final_movesMade h) = sint rows * sint cols - 1) \<and>
              (last out = Line ''Tour Completed!'' \<longleftrightarrow>
                 int (length (boards_printed h)) = sint rows * sint cols))"
proof -
  from main_total [OF assms] obtain h out where
    main: "main (rows, cols) start = Inr (h, out)" by blast
  from main have out: "out = map Rendered (boards_printed h) @
               [Line (if final_movesMade h = rows * cols - 1
                      then ''Tour Completed!'' else ''No More Moves!'')]"
    by (rule main_Inr)
  have "filter (\<lambda>x. \<exists>s. x = Line s) (map Rendered bs) = []" for bs
    by (induction bs) simp_all
  with out have first: "butlast out = map Rendered (boards_printed h) \<and>
         (last out = Line ''Tour Completed!'' \<or> last out = Line ''No More Moves!'') \<and>
         (last out = Line ''Tour Completed!'' \<longleftrightarrow> final_movesMade h = rows * cols - 1) \<and>
         (last out = Line ''No More Moves!'' \<longleftrightarrow> final_movesMade h \<noteq> rows * cols - 1) \<and>
         length (filter (\<lambda>x. \<exists>s. x = Line s) out) = 1"
    by simp
  then have tc: "last out = Line ''Tour Completed!'' \<longleftrightarrow> final_movesMade h = rows * cols - 1"
    by blast
  have second: "sint (final_movesMade h) = int (length (boards_printed h)) - 1 \<and>
              (last out = Line ''Tour Completed!'' \<longleftrightarrow>
                 sint (final_movesMade h) = sint rows * sint cols - 1) \<and>
              (last out = Line ''Tour Completed!'' \<longleftrightarrow>
                 int (length (boards_printed h)) = sint rows * sint cols)"
    if small: "sint rows * sint cols \<le> 2147483647"
  proof -
    note m = main_moves [OF main]
    from m(1,2) have pos: "0 < sint rows * sint cols" by simp
    from sint_times_minus_one [OF pos small]
    have rhs: "sint (rows * cols - 1) = sint rows * sint cols - 1" .
    from m(4) have n: "int (length (boards_printed h) - 1) = int (length (boards_printed h)) - 1"
      by (cases "boards_printed h") simp_all
    with m(5) small have "length (boards_printed h) - 1 < 2147483648" by linarith
    from sint_of_nat_small [OF this] m(3) n
    have a: "sint (final_movesMade h) = int (length (boards_printed h)) - 1" by simp
    have b: "final_movesMade h = rows * cols - 1 \<longleftrightarrow>
               sint (final_movesMade h) = sint rows * sint cols - 1"
    proof
      assume "final_movesMade h = rows * cols - 1"
      with rhs show "sint (final_movesMade h) = sint rows * sint cols - 1" by simp
    next
      assume "sint (final_movesMade h) = sint rows * sint cols - 1"
      with rhs have "sint (final_movesMade h) = sint (rows * cols - 1)" by simp
      then show "final_movesMade h = rows * cols - 1" by (rule signed_word_eqI)
    qed
    from a b tc show ?thesis by auto
  qed
  from main first second show ?thesis by blast
qed

theorem exit_message_witness:
  "isOnBoard (fst (0, 0)) (snd (0, 0)) 3 4 \<and>
   main (3, 4) (0, 0) = Inr (tour_3x4, printed_3x4) \<and>
   sint (3::cint) * sint (4::cint) \<le> 2147483647 \<and>
   int (length (boards_printed tour_3x4)) = sint (3::cint) * sint (4::cint) \<and>
   last printed_3x4 = Line ''Tour Completed!'' \<and>
   final_movesMade tour_3x4 = 3 * 4 - 1 \<and>
   isOnBoard (fst (0, 0)) (snd (0, 0)) 3 3 \<and>
   main (3, 3) (0, 0) = Inr (tour_3x3, printed_3x3) \<and>
   sint (3::cint) * sint (3::cint) \<le> 2147483647 \<and>
   int (length (boards_printed tour_3x3)) \<noteq> sint (3::cint) * sint (3::cint) \<and>
   last printed_3x3 = Line ''No More Moves!'' \<and>
   final_movesMade tour_3x3 \<noteq> 3 * 3 - 1"
proof -
  have s34: "sint (3::cint) * sint (4::cint) \<le> 2147483647"
    and s33: "sint (3::cint) * sint (3::cint) \<le> 2147483647" by simp_all
  have l34: "int (length (boards_printed tour_3x4)) = sint (3::cint) * sint (4::cint)"
    by (simp add: tour_3x4_def)
  have l33: "int (length (boards_printed tour_3x3)) \<noteq> sint (3::cint) * sint (3::cint)"
    by (simp add: tour_3x3_def)
  from exit_message [OF start_on_3x4] obtain h out where
    m: "main (3, 4) (0, 0) = Inr (h, out)"
    and tc: "last out = Line ''Tour Completed!'' \<longleftrightarrow> final_movesMade h = 3 * 4 - 1"
    and imp: "sint (3::cint) * sint (4::cint) \<le> 2147483647 \<longrightarrow>
              sint (final_movesMade h) = int (length (boards_printed h)) - 1 \<and>
              (last out = Line ''Tour Completed!'' \<longleftrightarrow>
                 sint (final_movesMade h) = sint (3::cint) * sint (4::cint) - 1) \<and>
              (last out = Line ''Tour Completed!'' \<longleftrightarrow>
                 int (length (boards_printed h)) = sint (3::cint) * sint (4::cint))"
    by blast
  from m [symmetric] main_3x4
  have "(Inr (h, out) :: error + halted \<times> printed list) = Inr (tour_3x4, printed_3x4)"
    by (rule trans)
  then have eq: "h = tour_3x4" "out = printed_3x4" by simp_all
  from imp s34 l34 have a1: "last printed_3x4 = Line ''Tour Completed!''"
    unfolding eq by blast
  with tc have a2: "final_movesMade tour_3x4 = 3 * 4 - 1" unfolding eq by blast
  from exit_message [OF start_on_3x3] obtain h' out' where
    m': "main (3, 3) (0, 0) = Inr (h', out')"
    and nm: "last out' = Line ''No More Moves!'' \<longleftrightarrow> final_movesMade h' \<noteq> 3 * 3 - 1"
    and tc': "last out' = Line ''Tour Completed!'' \<longleftrightarrow> final_movesMade h' = 3 * 3 - 1"
    and imp': "sint (3::cint) * sint (3::cint) \<le> 2147483647 \<longrightarrow>
              sint (final_movesMade h') = int (length (boards_printed h')) - 1 \<and>
              (last out' = Line ''Tour Completed!'' \<longleftrightarrow>
                 sint (final_movesMade h') = sint (3::cint) * sint (3::cint) - 1) \<and>
              (last out' = Line ''Tour Completed!'' \<longleftrightarrow>
                 int (length (boards_printed h')) = sint (3::cint) * sint (3::cint))"
    by blast
  from m' [symmetric] main_3x3
  have "(Inr (h', out') :: error + halted \<times> printed list) = Inr (tour_3x3, printed_3x3)"
    by (rule trans)
  then have eq': "h' = tour_3x3" "out' = printed_3x3" by simp_all
  from imp' s33 l33 have "last printed_3x3 \<noteq> Line ''Tour Completed!''"
    unfolding eq' by blast
  with tc' have b2: "final_movesMade tour_3x3 \<noteq> 3 * 3 - 1" unfolding eq' by blast
  with nm have b1: "last printed_3x3 = Line ''No More Moves!''" unfolding eq' by blast
  from start_on_3x4 main_3x4 s34 l34 a1 a2 start_on_3x3 main_3x3 s33 l33 b1 b2
  show ?thesis by (intro conjI)
qed

subsection \<open>C6: the order of the candidates\<close>



subsection \<open>C7: the run is determined by its input\<close>



subsection \<open>C8: the 1 x 1 board\<close>

text \<open>
  Claim C8. On a 1 x 1 board with its only cell as the start square, \<^verbatim>\<open>makeMove\<close>
  finds no move in its first call and leaves the counter at 0; nothing but the initial
  board is printed, and \<^verbatim>\<open>main\<close> compares 0 with 1 * 1 - 1 and reports a completed
  tour.
\<close>

theorem one_by_one_completed:
  "makeMove [[1]] 1 1 0 0 0 [[[1]]] =
     Inr \<lparr>final_Board = [[1]], final_knightRow = 0, final_knightCol = 0,
          final_movesMade = 0, boards_printed = [[[1]]]\<rparr>
   \<and> main (1, 1) (0, 0) =
     Inr (\<lparr>final_Board = [[1]], final_knightRow = 0, final_knightCol = 0,
           final_movesMade = 0, boards_printed = [[[1]]]\<rparr>,
          [Rendered [[1]], Line ''Tour Completed!''])"
  by code_simp

subsection \<open>C9: the last square stays current\<close>

text \<open>
  Claim C9. When a run of \<^verbatim>\<open>main\<close> ends, the last call of \<^verbatim>\<open>makeMove\<close> found no
  candidate from the knight's square; that square holds 1, not 2, on the board of that
  call, and this board is the last board printed: nothing was written after the last
  move.
\<close>

theorem halted_square_stays_current:
  assumes "main (rows, cols) start = Inr (h, out)"
  shows "findMovesFromSquare (final_knightRow h) (final_knightCol h) rows cols (final_Board h)
           = Inr [] \<and>
         board_at (final_Board h) (final_knightRow h) (final_knightCol h) = Inr 1 \<and>
         final_Board h = last (boards_printed h)"
proof -
  from tour_inv_main [OF assms]
  have "findMovesFromSquare (final_knightRow h) (final_knightCol h) rows cols (final_Board h)
           = Inr []"
    and "on_grid (final_Board h) (final_knightRow h) (final_knightCol h)"
    and "cell (final_Board h) (final_knightRow h) (final_knightCol h) = 1"
    and "last (boards_printed h) = final_Board h"
    by (simp_all add: tour_inv_def)
  then show ?thesis by (simp add: board_at_Inr)
qed

theorem halted_square_stays_current_witness:
  "main (3, 3) (0, 0) = Inr (tour_3x3, printed_3x3) \<and>
   findMovesFromSquare (final_knightRow tour_3x3) (final_knightCol tour_3x3) 3 3 (final_Board tour_3x3)
           = Inr [] \<and>
   board_at (final_Board tour_3x3) (final_knightRow tour_3x3) (final_knightCol tour_3x3) = Inr 1 \<and>
   final_Board tour_3x3 = last (boards_printed tour_3x3)"
  by (rule conjI [OF main_3x3 halted_square_stays_current [OF main_3x3]])

subsection \<open>C10: findMinimumIndex reads inside its vector\<close>

text \<open>
  Claim C10. \<^verbatim>\<open>findMinimumIndex\<close> reads element 0 first, so on the empty vector it
  reads out of range. On every non-empty vector it returns an index inside the vector.
  In \<^verbatim>\<open>makeMove\<close> the vector of scores has one entry for every candidate and is
  built only when there is a candidate, so the call succeeds there and its result is an
  index of the candidate vector.
\<close>

theorem findMinimumIndex_in_bounds:
  "findMinimumIndex [] = Inl OutOfRange \<and>
   (vec \<noteq> [] \<longrightarrow>
      (\<exists>index. findMinimumIndex vec = Inr index \<and> 0 \<le> sint index \<and> nat (sint index) < length vec)) \<and>
   (findMovesFromSquare knightRow knightCol boardX boardY Board = Inr array \<and> array \<noteq> [] \<and>
    sizes_loop array boardX boardY Board [] = Inr sizes \<longrightarrow>
      sizes \<noteq> [] \<and> length sizes = length array \<and>
      (\<exists>index nextMove. findMinimumIndex sizes = Inr index \<and> vec_at array index = Inr nextMove))"
proof (intro conjI impI)
  show "findMinimumIndex [] = Inl OutOfRange" by (rule findMinimumIndex_Nil)
next
  assume "vec \<noteq> []"
  from findMinimumIndex_range [OF this]
  show "\<exists>index. findMinimumIndex vec = Inr index \<and> 0 \<le> sint index \<and> nat (sint index) < length vec"
    by (simp add: word_sle_eq)
next
  assume a: "findMovesFromSquare knightRow knightCol boardX boardY Board = Inr array \<and> array \<noteq> [] \<and>
    sizes_loop array boardX boardY Board [] = Inr sizes"
  then have "sizes_loop array boardX boardY Board [] = Inr sizes" by simp
  from sizes_loop_length [OF this] have len: "length sizes = length array" by simp
  with a show ne: "sizes \<noteq> []" by auto
  from len show "length sizes = length array" .
  from findMinimumIndex_range [OF ne] len obtain index where
    "findMinimumIndex sizes = Inr index" "0 \<le>s index" "nat (sint index) < length array"
    by auto
  then show "\<exists>index nextMove. findMinimumIndex sizes = Inr index \<and> vec_at array index = Inr nextMove"
    by (simp add: vec_at_def)
qed

theorem findMinimumIndex_in_bounds_witness:
  "[3, 2, 2, 5] \<noteq> ([] :: cint list) \<and>
   findMinimumIndex [3, 2, 2, 5] = Inr 1 \<and>
   findMovesFromSquare 0 0 3 3 [[1, 0, 0], [0, 0, 0], [0, 0, 0]] = Inr [(2, 1), (1, 2)] \<and>
   [(2, 1), (1, 2)] \<noteq> ([] :: square list) \<and>
   sizes_loop [(2, 1), (1, 2)] 3 3 [[1, 0, 0], [0, 0, 0], [0, 0, 0]] [] = Inr [2, 2] \<and>
   findMinimumIndex [2, 2] = Inr 0 \<and>
   vec_at [(2, 1), (1, 2) :: square] 0 = Inr (2, 1)"
proof -
  have a: "findMovesFromSquare 0 0 3 3 [[1, 0, 0], [0, 0, 0], [0, 0, 0]] = Inr [(2, 1), (1, 2)]"
    by code_simp
  have b: "sizes_loop [(2, 1), (1, 2)] 3 3 [[1, 0, 0], [0, 0, 0], [0, 0, 0]] [] = Inr [2, 2]"
    by code_simp
  have c: "findMinimumIndex [3, 2, 2, 5] = Inr 1" "findMinimumIndex [2, 2] = Inr 0"
    "vec_at [(2, 1), (1, 2) :: square] 0 = Inr (2, 1)"
    by code_simp+
  from findMinimumIndex_in_bounds
         [of "[3, 2, 2, 5]" 0 0 3 3 "[[1, 0, 0], [0, 0, 0], [0, 0, 0]]" "[(2, 1), (1, 2)]" "[2, 2]"]
       a b c
  show ?thesis by simp
qed

end
